theory Spec2Isabelle
  imports Complex_Main "HOL-Library.AList"
begin

section \<open>JavaScript strings\<close>

text \<open>
  A JavaScript string is a sequence of UTF-16 code units. The regular expressions of
  \<^verbatim>\<open>scripts/parse-pr-urls.js\<close> carry no \<^verbatim>\<open>u\<close> flag, so they work on code units
  as well; the bullet U+2022 and the two marks U+2705 and U+274C of the log lines are one
  code unit each. A code unit is a natural number here (no arithmetic is done on them).
\<close>

type_synonym jschar = nat
type_synonym jsstring = "jschar list"

definition js :: "string \<Rightarrow> jsstring" where
  "js s = map of_char s"

text \<open>
  ECMAScript's WhiteSpace and LineTerminator productions. Both \<^verbatim>\<open>String.prototype.trim\<close>
  and the escape \<^verbatim>\<open>\s\<close> use their union; the pattern \<^verbatim>\<open>.\<close> is every code unit
  that is no LineTerminator.
\<close>

definition isWhiteSpace :: "jschar \<Rightarrow> bool" where
  "isWhiteSpace c \<longleftrightarrow>
     c = 0x9 \<or> c = 0xB \<or> c = 0xC \<or> c = 0x20 \<or> c = 0xA0 \<or> c = 0x1680 \<or>
     (0x2000 \<le> c \<and> c \<le> 0x200A) \<or> c = 0x202F \<or> c = 0x205F \<or> c = 0x3000 \<or> c = 0xFEFF"

definition isLineTerminator :: "jschar \<Rightarrow> bool" where
  "isLineTerminator c \<longleftrightarrow> c = 0xA \<or> c = 0xD \<or> c = 0x2028 \<or> c = 0x2029"

definition isSpace :: "jschar \<Rightarrow> bool" where
  "isSpace c \<longleftrightarrow> isWhiteSpace c \<or> isLineTerminator c"

definition trim :: "jsstring \<Rightarrow> jsstring" where
  "trim s = rev (dropWhile isSpace (rev (dropWhile isSpace s)))"

text \<open>\<^verbatim>\<open>s.split(sep)\<close> for a separator of one code unit: never an empty array.\<close>

fun split_on :: "jschar \<Rightarrow> jsstring \<Rightarrow> jsstring list" where
  "split_on sep [] = [[]]"
| "split_on sep (c # s) =
     (if c = sep then [] # split_on sep s
      else (case split_on sep s of [] \<Rightarrow> [[c]] | l # ls \<Rightarrow> (c # l) # ls))"

text \<open>A template literal prints an array length or an index in decimal.\<close>

fun decimal :: "nat \<Rightarrow> jsstring" where
  "decimal n = (if n < 10 then [0x30 + n] else decimal (n div 10) @ [0x30 + n mod 10])"

declare decimal.simps [simp del]

text \<open>A string or \<^verbatim>\<open>null\<close>/\<^verbatim>\<open>undefined\<close> used as a condition: the empty string is falsy too.\<close>

definition truthy :: "jsstring option \<Rightarrow> bool" where
  "truthy v = (case v of None \<Rightarrow> False | Some s \<Rightarrow> s \<noteq> [])"

text \<open>\<^verbatim>\<open>a || b\<close> on strings that may be undefined.\<close>

definition orElse :: "jsstring option \<Rightarrow> jsstring option \<Rightarrow> jsstring option" where
  "orElse a b = (if truthy a then a else b)"

section \<open>The two regular expressions\<close>

text \<open>
  The patterns \<^verbatim>\<open>/^[\*\-\<bullet>\s]*[Bb]efore:\s*(.+)$/\<close> and
  \<^verbatim>\<open>/^[\*\-\<bullet>\s]*[Aa]fter:\s*(.+)$/\<close> are sequences of four kinds of atom: one code unit
  of a set, a greedy star of a set, and the capturing group \<^verbatim>\<open>(.+)\<close>, whose tail after
  its first code unit is the fourth atom. \<open>rx_run\<close> is the backtracking matcher on such
  a sequence, anchored at both ends as \<^verbatim>\<open>^\<close> and \<^verbatim>\<open>$\<close> ask (there is no \<^verbatim>\<open>m\<close> flag): a
  greedy atom first takes one more code unit and gives it back when the rest of the
  pattern fails. Its result is what group 1 captured.
\<close>

datatype rx =
    Chr "jschar \<Rightarrow> bool"
  | Star "jschar \<Rightarrow> bool"
  | CapPlus "jschar \<Rightarrow> bool"
  | CapStar "jschar \<Rightarrow> bool"

fun rx_run :: "rx list \<Rightarrow> jsstring \<Rightarrow> jsstring \<Rightarrow> jsstring option" where
  "rx_run [] s cap = (if s = [] then Some cap else None)"
| "rx_run (Chr P # rs) [] cap = None"
| "rx_run (Chr P # rs) (c # s) cap = (if P c then rx_run rs s cap else None)"
| "rx_run (Star P # rs) [] cap = rx_run rs [] cap"
| "rx_run (Star P # rs) (c # s) cap =
     (if P c
      then (case rx_run (Star P # rs) s cap of
              Some r \<Rightarrow> Some r
            | None \<Rightarrow> rx_run rs (c # s) cap)
      else rx_run rs (c # s) cap)"
| "rx_run (CapPlus P # rs) [] cap = None"
| "rx_run (CapPlus P # rs) (c # s) cap =
     (if P c then rx_run (CapStar P # rs) s [c] else None)"
| "rx_run (CapStar P # rs) [] cap = rx_run rs [] cap"
| "rx_run (CapStar P # rs) (c # s) cap =
     (if P c
      then (case rx_run (CapStar P # rs) s (cap @ [c]) of
              Some r \<Rightarrow> Some r
            | None \<Rightarrow> rx_run rs (c # s) cap)
      else rx_run rs (c # s) cap)"

text \<open>\<^verbatim>\<open>line.match(re)\<close>: \<open>None\<close> for \<^verbatim>\<open>null\<close>, else element 1 of the array.\<close>

definition rx_match :: "rx list \<Rightarrow> jsstring \<Rightarrow> jsstring option" where
  "rx_match re line = rx_run re line []"

definition bulletOrSpace :: "jschar \<Rightarrow> bool" where
  "bulletOrSpace c \<longleftrightarrow> c = 0x2A \<or> c = 0x2D \<or> c = 0x2022 \<or> isSpace c"

definition dot :: "jschar \<Rightarrow> bool" where
  "dot c \<longleftrightarrow> \<not> isLineTerminator c"

definition lit :: "char \<Rightarrow> rx" where
  "lit k = Chr (\<lambda>c. c = of_char k)"

definition oneOf :: "char \<Rightarrow> char \<Rightarrow> rx" where
  "oneOf k k' = Chr (\<lambda>c. c = of_char k \<or> c = of_char k')"

definition beforeRegex :: "rx list" where
  "beforeRegex =
     [Star bulletOrSpace, oneOf CHR ''B'' CHR ''b''] @ map lit ''efore:'' @
     [Star isSpace, CapPlus dot]"

definition afterRegex :: "rx list" where
  "afterRegex =
     [Star bulletOrSpace, oneOf CHR ''A'' CHR ''a''] @ map lit ''fter:'' @
     [Star isSpace, CapPlus dot]"

section \<open>The line scan of parsePRBody\<close>

record pair =
  before :: jsstring
  after :: jsstring

text \<open>Lines written by \<^verbatim>\<open>console.log\<close> and by \<^verbatim>\<open>console.error\<close>.\<close>

datatype logline = StdOut jsstring | StdErr jsstring

record scan =
  currentBefore :: "jsstring option"
  currentAfter :: "jsstring option"
  potentialPairs :: "pair list"
  logged :: "logline list"

definition scanStart :: scan where
  "scanStart = \<lparr>currentBefore = None, currentAfter = None, potentialPairs = [], logged = []\<rparr>"

text \<open>One turn of the loop of lines 68 to 97, on a line that is trimmed already.\<close>

definition scanLine :: "jsstring \<Rightarrow> scan \<Rightarrow> scan" where
  "scanLine line st =
     (case rx_match beforeRegex line of
        Some g \<Rightarrow> st\<lparr>currentBefore := Some (trim g)\<rparr>
      | None \<Rightarrow>
          (case rx_match afterRegex line of
             None \<Rightarrow> st
           | Some g \<Rightarrow>
               (let st' = st\<lparr>currentAfter := Some (trim g)\<rparr> in
                if truthy (currentBefore st') \<and> truthy (currentAfter st')
                then (case (currentBefore st', currentAfter st') of
                        (Some b, Some a) \<Rightarrow>
                          st'\<lparr>potentialPairs := potentialPairs st' @ [\<lparr>before = b, after = a\<rparr>],
                              logged := logged st' @
                                [StdOut (js ''Found potential URL pair: '' @ b @ js '' -> '' @ a)],
                              currentBefore := None,
                              currentAfter := None\<rparr>
                      | _ \<Rightarrow> st')
                else st')))"

primrec scanLines :: "jsstring list \<Rightarrow> scan \<Rightarrow> scan" where
  "scanLines [] st = st"
| "scanLines (line # lines) st = scanLines lines (scanLine line st)"

text \<open>Lines 62 to 97: split at U+000A, trim every line, scan.\<close>

definition extractPairs :: "jsstring \<Rightarrow> scan" where
  "extractPairs prBody = scanLines (map trim (split_on 0xA prBody)) scanStart"

section \<open>The platform: URL parsing, HTTP clients, exceptions\<close>

text \<open>
  \<^verbatim>\<open>new URL\<close>, \<^verbatim>\<open>http.request\<close> and \<^verbatim>\<open>https.request\<close> belong to Node.js, not to
  this repository, so they are parameters of the model. \<open>parseURL\<close> is \<open>None\<close> where
  \<^verbatim>\<open>new URL(url)\<close> throws. \<open>request\<close> tells how one request ends: the client throws
  at once, the response callback runs with a status code, or the \<^verbatim>\<open>error\<close> or the
  \<^verbatim>\<open>timeout\<close> event fires first. Its first argument numbers the calls of validateUrl
  within one run, so the same URL may answer differently each time it is asked.
  \<open>message\<close> is the text of an exception's \<^verbatim>\<open>message\<close> property.
\<close>

record url =
  protocol :: jsstring
  hostname :: jsstring
  port :: jsstring
  pathname :: jsstring
  search :: jsstring

record options =
  httpMethod :: jsstring
  optHostname :: jsstring
  optPort :: jsstring
  path :: jsstring
  timeout :: nat

datatype client = Https | Http

datatype outcome = Threw | Response nat | ErrorEvent | TimeoutEvent

datatype jserror = TypeError | SyntaxError | SystemError

record platform =
  parseURL :: "jsstring \<Rightarrow> url option"
  request :: "nat \<Rightarrow> client \<Rightarrow> options \<Rightarrow> outcome"
  message :: "jserror \<Rightarrow> jsstring"

section \<open>validateUrl\<close>

text \<open>
  The body of the \<^verbatim>\<open>try\<close> block of lines 15 to 40: \<open>Inl\<close> is an exception thrown
  inside it, \<open>Inr\<close> the boolean the promise is resolved with by one of the three handlers.
\<close>

definition validateUrlTry :: "platform \<Rightarrow> nat \<Rightarrow> jsstring \<Rightarrow> jserror + bool" where
  "validateUrlTry pl t u =
     (case parseURL pl u of
        None \<Rightarrow> Inl TypeError
      | Some urlObj \<Rightarrow>
          (let client = (if protocol urlObj = js ''https:'' then Https else Http);
               opts = \<lparr>httpMethod = js ''HEAD'',
                       optHostname = hostname urlObj,
                       optPort = port urlObj,
                       path = pathname urlObj @ search urlObj,
                       timeout = 10000\<rparr>
           in (case request pl t client opts of
                 Threw \<Rightarrow> Inl TypeError
               | Response statusCode \<Rightarrow> Inr (statusCode = 200)
               | ErrorEvent \<Rightarrow> Inr False
               | TimeoutEvent \<Rightarrow> Inr False)))"

text \<open>The promise of validateUrl: what it resolves with, and what it logs on the way.\<close>

definition validateUrl :: "platform \<Rightarrow> nat \<Rightarrow> jsstring \<Rightarrow> bool \<times> logline list" where
  "validateUrl pl t u =
     (case validateUrlTry pl t u of
        Inl error \<Rightarrow> (False, [StdOut (js ''Invalid URL format: '' @ u)])
      | Inr ok \<Rightarrow> (ok, []))"

section \<open>The validation loop and parsePRBody\<close>

definition mark :: "bool \<Rightarrow> jsstring" where
  "mark ok = (if ok then [0x2705] else [0x274C])"

definition validLine :: "pair \<Rightarrow> logline" where
  "validLine p = StdOut ([0x2705] @ js '' Valid URL pair: '' @ before p @ js '' -> '' @ after p)"

definition invalidLine :: "bool \<Rightarrow> bool \<Rightarrow> pair \<Rightarrow> logline" where
  "invalidLine beforeValid afterValid p =
     StdOut ([0x274C] @ js '' Invalid URL pair (before: '' @ mark beforeValid @
             js '', after: '' @ mark afterValid @ js ''): '' @ before p @ js '' -> '' @ after p)"

text \<open>
  The loop of lines 103 to 116; \<open>t\<close> is the number of calls of validateUrl made so far.
  Both promises of a pair are created before either settles, the one of the before URL
  first.
\<close>

fun validatePairs :: "platform \<Rightarrow> nat \<Rightarrow> pair list \<Rightarrow> pair list \<times> logline list" where
  "validatePairs pl t [] = ([], [])"
| "validatePairs pl t (p # ps) =
     (let (beforeValid, log1) = validateUrl pl t (before p);
          (afterValid, log2) = validateUrl pl (t + 1) (after p);
          (urlPairs, rest) = validatePairs pl (t + 2) ps;
          start = [StdOut (js ''Validating: '' @ before p @ js '' -> '' @ after p)] @ log1 @ log2
      in if beforeValid \<and> afterValid
         then (p # urlPairs, start @ [validLine p] @ rest)
         else (urlPairs, start @ [invalidLine beforeValid afterValid p] @ rest))"

definition warnBefore :: "jsstring \<Rightarrow> logline" where
  "warnBefore b = StdOut (js ''Warning: Found \"Before\" URL without matching \"After\": '' @ b)"

definition warnAfter :: "jsstring \<Rightarrow> logline" where
  "warnAfter a = StdOut (js ''Warning: Found \"After\" URL without matching \"Before\": '' @ a)"

text \<open>Lines 118 to 124, on the two variables as the scan left them.\<close>

definition warnings :: "scan \<Rightarrow> logline list" where
  "warnings st =
     (case currentBefore st of
        Some b \<Rightarrow> if b \<noteq> [] \<and> \<not> truthy (currentAfter st) then [warnBefore b] else []
      | None \<Rightarrow> []) @
     (case currentAfter st of
        Some a \<Rightarrow> if a \<noteq> [] \<and> \<not> truthy (currentBefore st) then [warnAfter a] else []
      | None \<Rightarrow> [])"

text \<open>
  parsePRBody, its argument \<open>None\<close> when it is \<^verbatim>\<open>undefined\<close> or \<^verbatim>\<open>null\<close>: the array the
  promise resolves with, and the lines logged.
\<close>

definition parsePRBody :: "platform \<Rightarrow> jsstring option \<Rightarrow> pair list \<times> logline list" where
  "parsePRBody pl prBody =
     (case prBody of
        None \<Rightarrow> ([], [StdOut (js ''No PR body provided'')])
      | Some body \<Rightarrow>
          if body = [] then ([], [StdOut (js ''No PR body provided'')])
          else
            (let st = extractPairs body;
                 (urlPairs, vlog) = validatePairs pl 0 (potentialPairs st)
             in (urlPairs,
                 logged st @
                 [StdOut (js ''Validating '' @ decimal (length (potentialPairs st)) @ js '' URL pairs...'')] @
                 vlog @ warnings st)))"

section \<open>The configuration document\<close>

text \<open>
  A number as \<^verbatim>\<open>JSON.parse\<close> returns it is a double. A text such as \<^verbatim>\<open>1e309\<close> is out
  of range and parses to \<^verbatim>\<open>Infinity\<close>, \<^verbatim>\<open>-1e309\<close> to \<^verbatim>\<open>-Infinity\<close>, and \<^verbatim>\<open>-0\<close> to the
  negative zero. Every other double is \<open>Finite\<close> and stands as the real it denotes; the
  script does no arithmetic.
\<close>

datatype jsnumber = Finite real | NegZero | PosInfinity | NegInfinity

text \<open>
  What \<^verbatim>\<open>JSON.parse\<close> returns: a tree without sharing. An object is the list of its
  properties in their order.
\<close>

datatype json =
    JNull
  | JBool bool
  | JNum jsnumber
  | JStr jsstring
  | JArr "json list"
  | JObj "(jsstring \<times> json) list"

text \<open>
  \<open>backstopConfig\<close> in memory: a parsed document, or, once line 138 has run on a document
  that is an array, that array with a property \<^verbatim>\<open>scenarios\<close> of its own, which
  \<^verbatim>\<open>JSON.stringify\<close> does not print.
\<close>

datatype config = Plain json | Expando "json list" json

fun jsonTruthy :: "json option \<Rightarrow> bool" where
  "jsonTruthy None = False"
| "jsonTruthy (Some JNull) = False"
| "jsonTruthy (Some (JBool b)) = b"
| "jsonTruthy (Some (JNum n)) = (n \<noteq> Finite 0 \<and> n \<noteq> NegZero)"
| "jsonTruthy (Some (JStr s)) = (s \<noteq> [])"
| "jsonTruthy (Some (JArr xs)) = True"
| "jsonTruthy (Some (JObj kvs)) = True"

text \<open>
  Reading \<^verbatim>\<open>backstopConfig.scenarios\<close>: a TypeError on \<^verbatim>\<open>null\<close>, \<^verbatim>\<open>undefined\<close> (here
  \<open>None\<close>) where there is no such property.
\<close>

fun getScenarios :: "config \<Rightarrow> jserror + json option" where
  "getScenarios (Plain JNull) = Inl TypeError"
| "getScenarios (Plain (JObj kvs)) = Inr (map_of kvs (js ''scenarios''))"
| "getScenarios (Plain j) = Inr None"
| "getScenarios (Expando xs v) = Inr (Some v)"

text \<open>
  Writing \<^verbatim>\<open>backstopConfig.scenarios = v\<close>. The script is not in strict mode, so on a
  number, a string or a boolean the assignment does nothing. On an object an existing
  property keeps its place and a new one goes last.
\<close>

fun setScenarios :: "config \<Rightarrow> json \<Rightarrow> config" where
  "setScenarios (Plain (JObj kvs)) v = Plain (JObj (AList.update (js ''scenarios'') v kvs))"
| "setScenarios (Plain (JArr xs)) v = Expando xs v"
| "setScenarios (Plain j) v = Plain j"
| "setScenarios (Expando xs w) v = Expando xs v"

text \<open>
  \<^verbatim>\<open>backstopConfig.scenarios.push(scenario)\<close>: the array grows in place; where there is
  no array there is no function \<^verbatim>\<open>push\<close> to call.
\<close>

definition pushScenario :: "config \<Rightarrow> json \<Rightarrow> jserror + config" where
  "pushScenario cfg scenario =
     (case getScenarios cfg of
        Inl e \<Rightarrow> Inl e
      | Inr None \<Rightarrow> Inl TypeError
      | Inr (Some (JArr xs)) \<Rightarrow> Inr (setScenarios cfg (JArr (xs @ [scenario])))
      | Inr (Some j) \<Rightarrow> Inl TypeError)"

text \<open>
  The text \<^verbatim>\<open>JSON.stringify\<close> prints for a value, given as the document a later
  \<^verbatim>\<open>JSON.parse\<close> reads back from it. \<^verbatim>\<open>JSON.stringify\<close> prints an infinite number as
  \<^verbatim>\<open>null\<close> and the negative zero as \<^verbatim>\<open>0\<close>, at any depth; a finite number is printed
  with the digits that give the same double back, and strings, booleans, \<^verbatim>\<open>null\<close>, the
  elements of an array and the properties of an object, in their order, are read back
  as they were.
\<close>

fun serialized :: "json \<Rightarrow> json" where
  "serialized JNull = JNull"
| "serialized (JBool b) = JBool b"
| "serialized (JNum (Finite x)) = JNum (Finite x)"
| "serialized (JNum NegZero) = JNum (Finite 0)"
| "serialized (JNum PosInfinity) = JNull"
| "serialized (JNum NegInfinity) = JNull"
| "serialized (JStr s) = JStr s"
| "serialized (JArr xs) = JArr (map serialized xs)"
| "serialized (JObj kvs) = JObj (map (\<lambda>kv. (fst kv, serialized (snd kv))) kvs)"

text \<open>
  \<^verbatim>\<open>JSON.stringify(backstopConfig, null, 2)\<close>: of an array only the elements are
  printed, not a property it was given.
\<close>

fun stringify :: "config \<Rightarrow> json" where
  "stringify (Plain j) = serialized j"
| "stringify (Expando xs v) = serialized (JArr xs)"

definition hideSelectors :: json where
  "hideSelectors =
     JArr [JStr (js ''.cookie-banner''), JStr (js ''.loading-spinner''),
           JStr (js ''[data-testid=\"timestamp\"]''), JStr (js ''.logo-garden'')]"

definition removeSelectors :: json where
  "removeSelectors = JArr [JStr (js ''.advertisement''), JStr (js ''.chat-widget'')]"

definition labelOf :: "nat \<Rightarrow> jsstring" where
  "labelOf index = js ''Additional test page ('' @ decimal (index + 1) @ js '')''"

text \<open>The object literal of lines 143 to 150.\<close>

definition scenarioOf :: "nat \<Rightarrow> pair \<Rightarrow> json" where
  "scenarioOf index p =
     JObj [(js ''label'', JStr (labelOf index)),
           (js ''url'', JStr (after p)),
           (js ''referenceUrl'', JStr (before p)),
           (js ''hideSelectors'', hideSelectors),
           (js ''removeSelectors'', removeSelectors),
           (js ''misMatchThreshold'', JNum (Finite 0.1))]"

text \<open>
  The \<^verbatim>\<open>forEach\<close> of lines 142 to 154 from index \<open>index\<close> on. An exception ends it; the
  lines logged before stay logged.
\<close>

fun addScenarios :: "pair list \<Rightarrow> nat \<Rightarrow> config \<Rightarrow> (jserror + config) \<times> logline list" where
  "addScenarios [] index cfg = (Inr cfg, [])"
| "addScenarios (p # ps) index cfg =
     (case pushScenario cfg (scenarioOf index p) of
        Inl e \<Rightarrow> (Inl e, [])
      | Inr cfg' \<Rightarrow>
          (let (r, rest) = addScenarios ps (index + 1) cfg'
           in (r, StdOut (js ''Added scenario: '' @ labelOf index) # rest)))"

section \<open>The file system and updateBackstopConfig\<close>

text \<open>
  A file is known by what reading it gives: a text that \<^verbatim>\<open>JSON.parse\<close> turns into a
  document, a text it rejects, or an entry \<^verbatim>\<open>readFileSync\<close> fails on (a directory, a
  file without read permission). A path in \<open>locked\<close> is one \<^verbatim>\<open>writeFileSync\<close> fails on.
\<close>

datatype node = Json json | Malformed | Unreadable

record filesystem =
  entries :: "jsstring \<Rightarrow> node option"
  locked :: "jsstring \<Rightarrow> bool"

datatype 'a completion = Returned 'a | Thrown jserror | Exited nat

definition existsSync :: "filesystem \<Rightarrow> jsstring \<Rightarrow> bool" where
  "existsSync fs p = (entries fs p \<noteq> None)"

text \<open>\<^verbatim>\<open>JSON.parse(fs.readFileSync(p, 'utf8'))\<close>.\<close>

definition readJson :: "filesystem \<Rightarrow> jsstring \<Rightarrow> jserror + json" where
  "readJson fs p =
     (case entries fs p of
        None \<Rightarrow> Inl SystemError
      | Some Unreadable \<Rightarrow> Inl SystemError
      | Some Malformed \<Rightarrow> Inl SyntaxError
      | Some (Json j) \<Rightarrow> Inr j)"

text \<open>\<^verbatim>\<open>fs.writeFileSync(p, JSON.stringify(cfg, null, 2))\<close>.\<close>

definition writeJson :: "filesystem \<Rightarrow> jsstring \<Rightarrow> config \<Rightarrow> jserror + filesystem" where
  "writeJson fs p cfg =
     (if locked fs p then Inl SystemError
      else Inr (fs\<lparr>entries := (entries fs)(p \<mapsto> Json (stringify cfg))\<rparr>))"

text \<open>The default of the parameter \<open>backstopPath\<close>: it applies when the argument is left out.\<close>

definition pathOf :: "jsstring option \<Rightarrow> jsstring" where
  "pathOf backstopPath = (case backstopPath of None \<Rightarrow> js ''backstop.json'' | Some s \<Rightarrow> s)"

text \<open>
  updateBackstopConfig; \<open>backstopPath\<close> is \<open>None\<close> when the argument is left out. The
  result is how the call ends, the file system and the lines logged.
\<close>

definition updateBackstopConfig ::
  "filesystem \<Rightarrow> pair list \<Rightarrow> jsstring option \<Rightarrow> config completion \<times> filesystem \<times> logline list" where
  "updateBackstopConfig fs urlPairs backstopPath =
     (let p = pathOf backstopPath in
      if \<not> existsSync fs p
      then (Exited 1, fs, [StdErr (js ''Backstop config file not found: '' @ p)])
      else
        (case readJson fs p of
           Inl e \<Rightarrow> (Thrown e, fs, [])
         | Inr doc \<Rightarrow>
             (case getScenarios (Plain doc) of
                Inl e \<Rightarrow> (Thrown e, fs, [])
              | Inr v \<Rightarrow>
                  (let backstopConfig =
                         (if \<not> jsonTruthy v then setScenarios (Plain doc) (JArr []) else Plain doc)
                   in (case addScenarios urlPairs 0 backstopConfig of
                         (Inl e, out) \<Rightarrow> (Thrown e, fs, out)
                       | (Inr cfg, out) \<Rightarrow>
                           (case writeJson fs p cfg of
                              Inl e \<Rightarrow> (Thrown e, fs, out)
                            | Inr fs' \<Rightarrow>
                                (Returned cfg, fs',
                                 out @ [StdOut (js ''Updated '' @ p @ js '' with '' @
                                                decimal (length urlPairs) @
                                                js '' additional scenarios'')])))))))"

section \<open>main\<close>

record environment =
  PR_BODY :: "jsstring option"
  BACKSTOP_PATH :: "jsstring option"

record run =
  exitCode :: nat
  files :: filesystem
  printed :: "logline list"

text \<open>\<^verbatim>\<open>args[i]\<close>, \<^verbatim>\<open>undefined\<close> past the end.\<close>

definition arg :: "jsstring list \<Rightarrow> nat \<Rightarrow> jsstring option" where
  "arg args i = (if i < length args then Some (args ! i) else None)"

text \<open>
  main together with the handler of lines 189 to 192; \<open>args\<close> is
  \<^verbatim>\<open>process.argv.slice(2)\<close>. A run that meets no \<^verbatim>\<open>process.exit\<close> ends with code 0.
\<close>

definition main :: "platform \<Rightarrow> environment \<Rightarrow> jsstring list \<Rightarrow> filesystem \<Rightarrow> run" where
  "main pl env args fs =
     (let prBody = orElse (PR_BODY env) (arg args 0);
          backstopPath = orElse (orElse (BACKSTOP_PATH env) (arg args 1)) (Some (js ''backstop.json''))
      in if \<not> truthy prBody
         then \<lparr>exitCode = 0, files = fs,
               printed = [StdOut (js ''No PR body provided. Usage: node parse-pr-urls.js \"<pr-body>\" [backstop-path]''),
                          StdOut (js ''Or set PR_BODY environment variable'')]\<rparr>
         else
           (let (urlPairs, out1) = parsePRBody pl prBody;
                out2 = [StdOut (js ''Parsing PR body for URL pairs...'')] @ out1
            in if length urlPairs = 0
               then \<lparr>exitCode = 0, files = fs,
                     printed = out2 @ [StdOut (js ''No valid URL pairs found in PR body'')]\<rparr>
               else
                 (let out3 = out2 @ [StdOut (js ''Found '' @ decimal (length urlPairs) @ js '' valid URL pairs'')]
                  in (case updateBackstopConfig fs urlPairs backstopPath of
                        (Exited n, fs', out) \<Rightarrow> \<lparr>exitCode = n, files = fs', printed = out3 @ out\<rparr>
                      | (Thrown e, fs', out) \<Rightarrow>
                          \<lparr>exitCode = 1, files = fs',
                           printed = out3 @ out @ [StdErr (js ''Error: '' @ message pl e)]\<rparr>
                      | (Returned cfg, fs', out) \<Rightarrow>
                          \<lparr>exitCode = 0, files = fs',
                           printed = out3 @ out @
                             [StdOut ([0x2705] @ js '' Successfully updated backstop configuration'')]\<rparr>))))"

section \<open>Notions used in the statements\<close>

text \<open>
  A line is a Before line or an After line when the pattern of the script matches it.
  The remainder of a line is what follows its first colon, trimmed.
\<close>

definition isBeforeLine :: "jsstring \<Rightarrow> bool" where
  "isBeforeLine l \<longleftrightarrow> rx_match beforeRegex l \<noteq> None"

definition isAfterLine :: "jsstring \<Rightarrow> bool" where
  "isAfterLine l \<longleftrightarrow> rx_match afterRegex l \<noteq> None"

definition isMarker :: "jsstring \<Rightarrow> bool" where
  "isMarker l \<longleftrightarrow> isBeforeLine l \<or> isAfterLine l"

definition afterColon :: "jsstring \<Rightarrow> jsstring" where
  "afterColon l = drop 1 (dropWhile (\<lambda>c. c \<noteq> 0x3A) l)"

definition remainder :: "jsstring \<Rightarrow> jsstring" where
  "remainder l = trim (afterColon l)"

definition trimmed :: "jsstring \<Rightarrow> bool" where
  "trimmed l \<longleftrightarrow> l = [] \<or> \<not> isSpace (last l)"

text \<open>
  The candidate pair of a Before line and an After line, and the lines of a list of such
  pairs in reading order.
\<close>

definition pairOf :: "jsstring \<times> jsstring \<Rightarrow> pair" where
  "pairOf bl = \<lparr>before = remainder (fst bl), after = remainder (snd bl)\<rparr>"

definition interleave :: "(jsstring \<times> jsstring) list \<Rightarrow> jsstring list" where
  "interleave ps = concat (map (\<lambda>bl. [fst bl, snd bl]) ps)"

text \<open>
  A text written line by line: the lines joined by U+000A. A Before line written as
  bullets and white space \<open>p\<close>, the keyword with its colon, and a remainder \<open>r\<close>
  (an After line likewise) is well formed when \<open>r\<close>, trimmed, is not empty and holds
  no line terminator, and neither part holds U+000A.
\<close>

fun joinLines :: "jsstring list \<Rightarrow> jsstring" where
  "joinLines [] = []"
| "joinLines [l] = l"
| "joinLines (l # l' # ls) = l @ [0xA] @ joinLines (l' # ls)"

definition wellFormed :: "jsstring \<Rightarrow> jsstring \<Rightarrow> bool" where
  "wellFormed p r \<longleftrightarrow>
     (\<forall>c\<in>set p. bulletOrSpace c \<and> c \<noteq> 0xA) \<and> (\<forall>c\<in>set r. c \<noteq> 0xA) \<and>
     trim r \<noteq> [] \<and> (\<forall>c\<in>set (trim r). \<not> isLineTerminator c)"

definition linesOf :: "(jsstring \<times> jsstring) \<times> (jsstring \<times> jsstring) \<Rightarrow> jsstring \<times> jsstring" where
  "linesOf q = (fst (fst q) @ js ''Before:'' @ snd (fst q), fst (snd q) @ js ''After:'' @ snd (snd q))"

text \<open>
  The reading of a marker line that ignores the case of every letter of the keyword:
  bullets and white space, the keyword \<open>kw\<close> (given in lower case) in any case, a
  colon, and a remainder that is not blank.
\<close>

definition lowerCase :: "jschar \<Rightarrow> jschar" where
  "lowerCase c = (if 0x41 \<le> c \<and> c \<le> 0x5A then c + 0x20 else c)"

definition anyCaseMarker :: "string \<Rightarrow> jsstring \<Rightarrow> bool" where
  "anyCaseMarker kw l \<longleftrightarrow>
     (let s = dropWhile bulletOrSpace (trim l); n = length kw
      in map lowerCase (take n s) = js kw \<and> take 1 (drop n s) = [0x3A] \<and>
         trim (drop (Suc n) s) \<noteq> [])"

text \<open>
  Pair \<open>i\<close> of the validation loop is validated by the calls \<open>t + 2 * i\<close> and
  \<open>t + 2 * i + 1\<close> of validateUrl; \<open>verdictLine\<close> is the line the loop logs for it.
\<close>

definition bothValid :: "platform \<Rightarrow> nat \<Rightarrow> pair list \<Rightarrow> nat \<Rightarrow> bool" where
  "bothValid pl t ps i \<longleftrightarrow>
     fst (validateUrl pl (t + 2 * i) (before (ps ! i))) \<and>
     fst (validateUrl pl (t + 2 * i + 1) (after (ps ! i)))"

definition verdictLine :: "platform \<Rightarrow> nat \<Rightarrow> pair list \<Rightarrow> nat \<Rightarrow> logline" where
  "verdictLine pl t ps i =
     (if bothValid pl t ps i then validLine (ps ! i)
      else invalidLine (fst (validateUrl pl (t + 2 * i) (before (ps ! i))))
                       (fst (validateUrl pl (t + 2 * i + 1) (after (ps ! i)))) (ps ! i))"

text \<open>
  \<open>field k doc\<close> is the top-level property \<open>k\<close> of a document that is an object.
  \<open>newScenarios index ps\<close> are the records the \<^verbatim>\<open>forEach\<close> builds for the pairs \<open>ps\<close>,
  the first with index \<open>index\<close>. \<open>others doc\<close> is the document without its property
  \<^verbatim>\<open>scenarios\<close>. \<open>hasDefaults\<close> holds of a record with the three fixed settings of lines
  147 to 149. \<open>withEmptyScenarios doc\<close> is the document with \<^verbatim>\<open>scenarios\<close> set to the
  empty array. \<open>updatedLine\<close> is the line logged on line 158.
\<close>

definition field :: "string \<Rightarrow> json \<Rightarrow> json option" where
  "field k j = (case j of JObj kvs \<Rightarrow> map_of kvs (js k) | _ \<Rightarrow> None)"

fun newScenarios :: "nat \<Rightarrow> pair list \<Rightarrow> json list" where
  "newScenarios index [] = []"
| "newScenarios index (p # ps) = scenarioOf index p # newScenarios (index + 1) ps"

fun others :: "json \<Rightarrow> json" where
  "others (JObj kvs) = JObj (filter (\<lambda>kv. fst kv \<noteq> js ''scenarios'') kvs)"
| "others j = j"

text \<open>A document all of whose numbers, at any depth, are finite and not the negative zero.\<close>

fun plainNumbers :: "json \<Rightarrow> bool" where
  "plainNumbers (JNum n) = (case n of Finite x \<Rightarrow> True | _ \<Rightarrow> False)"
| "plainNumbers (JArr xs) = list_all plainNumbers xs"
| "plainNumbers (JObj kvs) = list_all (\<lambda>kv. plainNumbers (snd kv)) kvs"
| "plainNumbers j = True"

definition hasDefaults :: "json \<Rightarrow> bool" where
  "hasDefaults s \<longleftrightarrow>
     field ''hideSelectors'' s =
       Some (JArr [JStr (js ''.cookie-banner''), JStr (js ''.loading-spinner''),
                   JStr (js ''[data-testid=\"timestamp\"]''), JStr (js ''.logo-garden'')]) \<and>
     field ''removeSelectors'' s =
       Some (JArr [JStr (js ''.advertisement''), JStr (js ''.chat-widget'')]) \<and>
     field ''misMatchThreshold'' s = Some (JNum (Finite 0.1))"


definition updatedLine :: "jsstring \<Rightarrow> nat \<Rightarrow> logline" where
  "updatedLine p n =
     StdOut (js ''Updated '' @ p @ js '' with '' @ decimal n @ js '' additional scenarios'')"

text \<open>The text, the path and the validated pairs that main works with.\<close>

definition bodyOf :: "environment \<Rightarrow> jsstring list \<Rightarrow> jsstring option" where
  "bodyOf env args = orElse (PR_BODY env) (arg args 0)"

definition configPath :: "environment \<Rightarrow> jsstring list \<Rightarrow> jsstring" where
  "configPath env args =
     pathOf (orElse (orElse (BACKSTOP_PATH env) (arg args 1)) (Some (js ''backstop.json'')))"

definition validPairs :: "platform \<Rightarrow> environment \<Rightarrow> jsstring list \<Rightarrow> pair list" where
  "validPairs pl env args = fst (parsePRBody pl (bodyOf env args))"

text \<open>
  Concrete inputs: a text with one pair, a pair, two documents, a file system that holds
  one document at \<^verbatim>\<open>backstop.json\<close> and one that holds nothing, a platform on which
  every URL parses and answers 200, and one that knows two URLs, answers 200 over
  HTTPS and 404 over HTTP.
\<close>

definition demoBody :: jsstring where
  "demoBody = js ''- Before: https://a.example/x'' @ [0xA] @ js ''- After: https://b.example/y''"

definition demoPair :: pair where
  "demoPair = \<lparr>before = js ''https://a.example/x'', after = js ''https://b.example/y''\<rparr>"

definition demoDoc :: json where
  "demoDoc = JObj [(js ''id'', JStr (js ''demo'')),
                   (js ''scenarios'', JArr [JObj [(js ''label'', JStr (js ''Home''))]])]"

definition bareDoc :: json where
  "bareDoc = JObj [(js ''id'', JStr (js ''demo''))]"

text \<open>The document read from the text \<^verbatim>\<open>{"id": 1e309, "scenarios": []}\<close>.\<close>

definition overflowDoc :: json where
  "overflowDoc = JObj [(js ''id'', JNum PosInfinity), (js ''scenarios'', JArr [])]"

definition filesWith :: "json \<Rightarrow> filesystem" where
  "filesWith doc =
     \<lparr>entries = (\<lambda>p. if p = js ''backstop.json'' then Some (Json doc) else None),
      locked = (\<lambda>p. False)\<rparr>"

definition noFiles :: filesystem where
  "noFiles = \<lparr>entries = (\<lambda>p. None), locked = (\<lambda>p. False)\<rparr>"

definition okPlatform :: platform where
  "okPlatform =
     \<lparr>parseURL = (\<lambda>s. Some \<lparr>protocol = js ''https:'', hostname = js ''example'', port = [],
                            pathname = js ''/'', search = []\<rparr>),
      request = (\<lambda>t c opts. Response 200),
      message = (\<lambda>e. js ''failed'')\<rparr>"

definition plainPlatform :: platform where
  "plainPlatform =
     \<lparr>parseURL = (\<lambda>s. if s = js ''https://a.example/x''
                      then Some \<lparr>protocol = js ''https:'', hostname = js ''a.example'', port = [],
                                 pathname = js ''/x'', search = []\<rparr>
                      else if s = js ''http://b.example/y''
                      then Some \<lparr>protocol = js ''http:'', hostname = js ''b.example'', port = [],
                                 pathname = js ''/y'', search = []\<rparr>
                      else None),
      request = (\<lambda>t c opts. if c = Https then Response 200 else Response 404),
      message = (\<lambda>e. js ''failed'')\<rparr>"

section \<open>Strings and the matcher\<close>

lemma isLineTerminator_isSpace: "isLineTerminator c \<Longrightarrow> isSpace c"
  by (simp add: isSpace_def)

lemma trim_Nil [simp]: "trim [] = []"
  by (simp add: trim_def)

lemma dropWhile_same: "xs \<noteq> [] \<Longrightarrow> \<not> P (hd xs) \<Longrightarrow> dropWhile P xs = xs"
  by (cases xs) auto

lemma trim_last: "trim s \<noteq> [] \<Longrightarrow> \<not> isSpace (last (trim s))"
proof -
  assume a: "trim s \<noteq> []"
  let ?r = "dropWhile isSpace (rev (dropWhile isSpace s))"
  have "?r \<noteq> []" using a by (simp add: trim_def)
  then have "\<not> isSpace (hd ?r)" by (rule hd_dropWhile)
  moreover have "last (trim s) = hd ?r" using \<open>?r \<noteq> []\<close> by (simp add: trim_def last_rev)
  ultimately show ?thesis by simp
qed

lemma trim_fixed: "s \<noteq> [] \<Longrightarrow> \<not> isSpace (hd s) \<Longrightarrow> \<not> isSpace (last s) \<Longrightarrow> trim s = s"
proof -
  assume a: "s \<noteq> []" "\<not> isSpace (hd s)" "\<not> isSpace (last s)"
  have 1: "dropWhile isSpace s = s" using a by (simp add: dropWhile_same)
  have 2: "dropWhile isSpace (rev s) = rev s" using a by (simp add: dropWhile_same hd_rev)
  show ?thesis by (simp add: trim_def 1 2)
qed

lemma trim_hd: "trim s \<noteq> [] \<Longrightarrow> \<not> isSpace (hd (trim s))"
proof -
  assume a: "trim s \<noteq> []"
  let ?d = "dropWhile isSpace s"
  have d: "?d \<noteq> []" using a by (cases "dropWhile isSpace s = []") (simp_all add: trim_def)
  then have h: "\<not> isSpace (hd ?d)" by (rule hd_dropWhile)
  have "hd ?d \<in> set ?d" using d by simp
  then have "\<exists>x \<in> set ?d. \<not> isSpace x" using h by blast
  then obtain ys x zs where e: "?d = ys @ x # zs" "\<not> isSpace x" "\<forall>z\<in>set zs. isSpace z"
    using split_list_last_prop [of ?d "\<lambda>x. \<not> isSpace x"] by auto
  then have "trim s = ys @ [x]"
    by (simp add: trim_def dropWhile_append3)
  then show ?thesis using h e by (cases ys) auto
qed

lemma trim_idem: "trim (trim s) = trim s"
proof (cases "trim s = []")
  case True then show ?thesis by simp
next
  case False then show ?thesis by (intro trim_fixed trim_hd trim_last)
qed


lemma rx_star_skip:
  assumes "\<And>c. P c \<Longrightarrow> \<not> Q c"
  shows "rx_run (Star P # Chr Q # rs) s cap = rx_run (Chr Q # rs) (dropWhile P s) cap"
proof (induction s)
  case Nil
  then show ?case by simp
next
  case (Cons c s)
  show ?case
  proof (cases "P c")
    case True
    then have "rx_run (Chr Q # rs) (c # s) cap = None" using assms by simp
    then show ?thesis using True Cons by (simp split: option.splits)
  next
    case False
    then show ?thesis by simp
  qed
qed

lemma rx_lits:
  "rx_run (map lit ks @ rs) s cap =
     (if take (length ks) s = js ks then rx_run rs (drop (length ks) s) cap else None)"
proof (induction ks arbitrary: s)
  case Nil
  then show ?case by (simp add: js_def)
next
  case (Cons k ks)
  show ?case
  proof (cases s)
    case Nil
    then show ?thesis by (simp add: js_def lit_def)
  next
    case (Cons c s')
    then show ?thesis using Cons.IH [of s'] by (auto simp: js_def lit_def)
  qed
qed

lemma rx_capstar_end:
  "rx_run [CapStar P] s cap = (if list_all P s then Some (cap @ s) else None)"
  by (induction s arbitrary: cap) auto

lemma rx_capplus_end:
  "rx_run [CapPlus P] s cap = (if s \<noteq> [] \<and> list_all P s then Some s else None)"
  by (cases s) (auto simp: rx_capstar_end)

lemma rx_tail:
  assumes "s = [] \<or> \<not> isSpace (last s)"
  shows "rx_run [Star isSpace, CapPlus dot] s cap =
           (if dropWhile isSpace s \<noteq> [] \<and> list_all dot (dropWhile isSpace s)
            then Some (dropWhile isSpace s) else None)"
  using assms
proof (induction s)
  case Nil
  then show ?case by simp
next
  case (Cons c s)
  show ?case
  proof (cases "isSpace c")
    case False
    have "rx_run [CapPlus dot] (c # s) cap =
            (if c # s \<noteq> [] \<and> list_all dot (c # s) then Some (c # s) else None)"
      by (rule rx_capplus_end)
    then show ?thesis using False by simp
  next
    case True
    with Cons.prems have ne: "s \<noteq> []" and l: "\<not> isSpace (last s)" by (auto split: if_splits)
    have d: "dropWhile isSpace s \<noteq> []"
      using ne l by (metis dropWhile_eq_Nil_conv last_in_set)
    have sub: "set (dropWhile isSpace s) \<subseteq> set s" by (rule set_dropWhileD [THEN subsetI])
    show ?thesis
    proof (cases "list_all dot (dropWhile isSpace s)")
      case yes: True
      then show ?thesis using True Cons.IH ne l d by simp
    next
      case no: False
      then have "\<not> list_all dot (c # s)" using sub by (auto simp: list_all_iff)
      then have "rx_run [CapPlus dot] (c # s) cap = None"
        using rx_capplus_end [of dot "c # s" cap] by simp
      then show ?thesis using True Cons.IH ne l no by simp
    qed
  qed
qed


lemma trimmed_trim: "trimmed (trim s)"
  using trim_last [of s] by (auto simp: trimmed_def)

lemma last_dropWhile: "dropWhile P xs \<noteq> [] \<Longrightarrow> last (dropWhile P xs) = last xs"
  by (metis last_appendR takeWhile_dropWhile_id)

lemma trimmed_dropWhile: "trimmed l \<Longrightarrow> trimmed (dropWhile P l)"
  by (cases "dropWhile P l = []") (auto simp: trimmed_def last_dropWhile simp del: dropWhile_eq_Nil_conv)

lemma trimmed_drop: "trimmed l \<Longrightarrow> trimmed (drop n l)"
  by (auto simp: trimmed_def)

lemma trimmed_tl: "trimmed (c # l) \<Longrightarrow> trimmed l"
  by (auto simp: trimmed_def split: if_splits)

lemma trim_dropWhile: "trim (dropWhile isSpace s) = trim s"
  by (simp add: trim_def dropWhile_idem)

text \<open>What a pattern of the shape of the two of the script matches on a trimmed line.\<close>

lemma rx_marker:
  assumes k: "\<not> bulletOrSpace (of_char k)" "\<not> bulletOrSpace (of_char k')"
    and t: "trimmed l" and n: "n = length ks"
  shows "rx_match ([Star bulletOrSpace, oneOf k k'] @ map lit ks @ [Star isSpace, CapPlus dot]) l =
     (case dropWhile bulletOrSpace l of
        [] \<Rightarrow> None
      | c # s \<Rightarrow>
          if (c = of_char k \<or> c = of_char k') \<and> take n s = js ks \<and>
             dropWhile isSpace (drop n s) \<noteq> [] \<and>
             list_all dot (dropWhile isSpace (drop n s))
          then Some (dropWhile isSpace (drop n s)) else None)"
proof -
  let ?rest = "map lit ks @ [Star isSpace, CapPlus dot]"
  have disj: "\<And>c. bulletOrSpace c \<Longrightarrow> \<not> (c = of_char k \<or> c = of_char k')"
    using k by auto
  have 1: "rx_match ([Star bulletOrSpace, oneOf k k'] @ ?rest) l =
        rx_run (Chr (\<lambda>c. c = of_char k \<or> c = of_char k') # ?rest) (dropWhile bulletOrSpace l) []"
    unfolding rx_match_def oneOf_def using rx_star_skip [OF disj] by simp
  show ?thesis
  proof (cases "dropWhile bulletOrSpace l")
    case Nil
    then show ?thesis using 1 by (simp del: dropWhile_eq_Nil_conv)
  next
    case (Cons c s)
    have "trimmed (c # s)" using t trimmed_dropWhile [of l bulletOrSpace] Cons by simp
    then have "trimmed (drop n s)" by (intro trimmed_drop) (rule trimmed_tl)
    then have 2: "rx_run [Star isSpace, CapPlus dot] (drop n s) [] =
        (if dropWhile isSpace (drop n s) \<noteq> [] \<and> list_all dot (dropWhile isSpace (drop n s))
         then Some (dropWhile isSpace (drop n s)) else None)"
      by (intro rx_tail) (simp add: trimmed_def)
    show ?thesis using 1 Cons 2 n by (simp add: rx_lits)
  qed
qed

lemma not_bullet_letters:
  "\<not> bulletOrSpace (of_char CHR ''B'')" "\<not> bulletOrSpace (of_char CHR ''b'')"
  "\<not> bulletOrSpace (of_char CHR ''A'')" "\<not> bulletOrSpace (of_char CHR ''a'')"
  by (simp_all add: bulletOrSpace_def isSpace_def isWhiteSpace_def isLineTerminator_def)

lemma beforeMatch_eq:
  assumes "trimmed l"
  shows "rx_match beforeRegex l =
     (case dropWhile bulletOrSpace l of
        [] \<Rightarrow> None
      | c # s \<Rightarrow>
          if (c = of_char CHR ''B'' \<or> c = of_char CHR ''b'') \<and> take 6 s = js ''efore:'' \<and>
             dropWhile isSpace (drop 6 s) \<noteq> [] \<and> list_all dot (dropWhile isSpace (drop 6 s))
          then Some (dropWhile isSpace (drop 6 s)) else None)"
  unfolding beforeRegex_def
  by (rule rx_marker [OF not_bullet_letters(1,2) assms]) simp

lemma afterMatch_eq:
  assumes "trimmed l"
  shows "rx_match afterRegex l =
     (case dropWhile bulletOrSpace l of
        [] \<Rightarrow> None
      | c # s \<Rightarrow>
          if (c = of_char CHR ''A'' \<or> c = of_char CHR ''a'') \<and> take 5 s = js ''fter:'' \<and>
             dropWhile isSpace (drop 5 s) \<noteq> [] \<and> list_all dot (dropWhile isSpace (drop 5 s))
          then Some (dropWhile isSpace (drop 5 s)) else None)"
  unfolding afterRegex_def
  by (rule rx_marker [OF not_bullet_letters(3,4) assms]) simp



lemma afterColon_shape:
  assumes d: "dropWhile bulletOrSpace l = c # s" and c: "c \<noteq> 0x3A"
    and tk: "take n s = pre @ [0x3A]" and pre: "\<forall>x\<in>set pre. x \<noteq> 0x3A"
  shows "afterColon l = drop n s"
proof -
  have "take n s @ drop n s = s" by (rule append_take_drop_id)
  then have s: "c # s = (c # pre) @ 0x3A # drop n s" using tk by simp
  have "takeWhile bulletOrSpace l @ dropWhile bulletOrSpace l = l" by (rule takeWhile_dropWhile_id)
  then have l: "l = (takeWhile bulletOrSpace l @ c # pre) @ 0x3A # drop n s"
    using d s by simp
  have "\<not> bulletOrSpace 0x3A"
    by (simp add: bulletOrSpace_def isSpace_def isWhiteSpace_def isLineTerminator_def)
  then have "\<And>x. x \<in> set (takeWhile bulletOrSpace l) \<Longrightarrow> x \<noteq> 0x3A"
    by (auto dest: set_takeWhileD)
  then have "\<And>x. x \<in> set (takeWhile bulletOrSpace l @ c # pre) \<Longrightarrow> x \<noteq> 0x3A"
    using c pre by auto
  then have "dropWhile (\<lambda>c. c \<noteq> 0x3A) ((takeWhile bulletOrSpace l @ c # pre) @ 0x3A # drop n s)
             = dropWhile (\<lambda>c. c \<noteq> 0x3A) (0x3A # drop n s)"
    by (rule dropWhile_append2)
  then have "dropWhile (\<lambda>c. c \<noteq> 0x3A) l = 0x3A # drop n s" using l by simp
  then show ?thesis by (simp add: afterColon_def)
qed

lemma capture_trimmed:
  assumes t: "trimmed (c # s)" and g: "dropWhile isSpace (drop n s) \<noteq> []"
  shows "trim (dropWhile isSpace (drop n s)) = dropWhile isSpace (drop n s)"
proof -
  let ?g = "dropWhile isSpace (drop n s)"
  have "trimmed ?g" using t by (intro trimmed_dropWhile trimmed_drop) (rule trimmed_tl)
  then have "\<not> isSpace (last ?g)" using g by (simp add: trimmed_def del: dropWhile_eq_Nil_conv)
  moreover have "\<not> isSpace (hd ?g)" using g by (rule hd_dropWhile)
  ultimately show ?thesis using g by (intro trim_fixed)
qed

lemma before_capture:
  assumes t: "trimmed l" and m: "rx_match beforeRegex l = Some g"
  shows "g \<noteq> [] \<and> trim g = g \<and> g = remainder l"
proof -
  from m obtain c s where d: "dropWhile bulletOrSpace l = c # s"
    and c: "c = of_char CHR ''B'' \<or> c = of_char CHR ''b''"
    and tk: "take 6 s = js ''efore:''"
    and ne: "dropWhile isSpace (drop 6 s) \<noteq> []"
    and g: "g = dropWhile isSpace (drop 6 s)"
    unfolding beforeMatch_eq [OF t]
    by (auto split: list.splits if_splits simp del: dropWhile_eq_Nil_conv)
  have tcs: "trimmed (c # s)" using trimmed_dropWhile [OF t, of bulletOrSpace] d by simp
  have tg: "trim g = g" unfolding g using tcs ne by (rule capture_trimmed)
  have "afterColon l = drop 6 s"
    using d _ _ _
  proof (rule afterColon_shape)
    show "c \<noteq> 0x3A" using c by auto
    show "take 6 s = js ''efore'' @ [0x3A]" using tk by (simp add: js_def)
    show "\<forall>x\<in>set (js ''efore''). x \<noteq> 0x3A" by (simp add: js_def)
  qed
  then have "remainder l = trim g" by (simp add: remainder_def g trim_dropWhile)
  then show ?thesis using tg ne g by simp
qed

lemma after_capture:
  assumes t: "trimmed l" and m: "rx_match afterRegex l = Some g"
  shows "g \<noteq> [] \<and> trim g = g \<and> g = remainder l"
proof -
  from m obtain c s where d: "dropWhile bulletOrSpace l = c # s"
    and c: "c = of_char CHR ''A'' \<or> c = of_char CHR ''a''"
    and tk: "take 5 s = js ''fter:''"
    and ne: "dropWhile isSpace (drop 5 s) \<noteq> []"
    and g: "g = dropWhile isSpace (drop 5 s)"
    unfolding afterMatch_eq [OF t]
    by (auto split: list.splits if_splits simp del: dropWhile_eq_Nil_conv)
  have tcs: "trimmed (c # s)" using trimmed_dropWhile [OF t, of bulletOrSpace] d by simp
  have tg: "trim g = g" unfolding g using tcs ne by (rule capture_trimmed)
  have "afterColon l = drop 5 s"
    using d _ _ _
  proof (rule afterColon_shape)
    show "c \<noteq> 0x3A" using c by auto
    show "take 5 s = js ''fter'' @ [0x3A]" using tk by (simp add: js_def)
    show "\<forall>x\<in>set (js ''fter''). x \<noteq> 0x3A" by (simp add: js_def)
  qed
  then have "remainder l = trim g" by (simp add: remainder_def g trim_dropWhile)
  then show ?thesis using tg ne g by simp
qed

lemma before_not_after:
  assumes t: "trimmed l" and b: "isBeforeLine l"
  shows "\<not> isAfterLine l"
  using b unfolding isBeforeLine_def isAfterLine_def beforeMatch_eq [OF t] afterMatch_eq [OF t]
  by (auto split: list.splits if_splits)

lemma scanLine_before:
  assumes t: "trimmed l" and b: "isBeforeLine l"
  shows "scanLine l st = st\<lparr>currentBefore := Some (remainder l)\<rparr>"
proof -
  from b obtain g where g: "rx_match beforeRegex l = Some g" by (auto simp: isBeforeLine_def)
  from before_capture [OF t g] have "trim g = remainder l" by metis
  then show ?thesis by (simp add: scanLine_def g)
qed

lemma scanLine_plain:
  assumes "\<not> isBeforeLine l" and "\<not> isAfterLine l"
  shows "scanLine l st = st"
  using assms by (simp add: scanLine_def isBeforeLine_def isAfterLine_def)

lemma scanLine_after:
  assumes t: "trimmed l" and a: "isAfterLine l"
  shows "scanLine l st =
     (case currentBefore st of
        None \<Rightarrow> st\<lparr>currentAfter := Some (remainder l)\<rparr>
      | Some b \<Rightarrow>
          if b = [] then st\<lparr>currentAfter := Some (remainder l)\<rparr>
          else st\<lparr>currentAfter := None, currentBefore := None,
                  potentialPairs := potentialPairs st @ [\<lparr>before = b, after = remainder l\<rparr>],
                  logged := logged st @
                    [StdOut (js ''Found potential URL pair: '' @ b @ js '' -> '' @ remainder l)]\<rparr>)"
proof -
  from a obtain g where g: "rx_match afterRegex l = Some g" by (auto simp: isAfterLine_def)
  have nb: "rx_match beforeRegex l = None"
    using before_not_after [OF t] a by (cases "rx_match beforeRegex l") (auto simp: isBeforeLine_def)
  from after_capture [OF t g] have r: "trim g = remainder l" "remainder l \<noteq> []" by metis+
  show ?thesis
    by (cases "currentBefore st") (simp_all add: scanLine_def truthy_def Let_def nb g r)
qed


lemma remainder_before_nonempty:
  "trimmed l \<Longrightarrow> isBeforeLine l \<Longrightarrow> remainder l \<noteq> []"
  using before_capture [of l] by (auto simp: isBeforeLine_def)

lemma scanLines_alternating:
  assumes "\<forall>l\<in>set ls. trimmed l"
  shows "(\<forall>ps st. filter isMarker ls = interleave ps \<longrightarrow>
            (\<forall>bl\<in>set ps. isBeforeLine (fst bl) \<and> isAfterLine (snd bl)) \<longrightarrow>
            potentialPairs (scanLines ls st) = potentialPairs st @ map pairOf ps) \<and>
         (\<forall>ps a rb st. filter isMarker ls = a # interleave ps \<longrightarrow> isAfterLine a \<longrightarrow>
            (\<forall>bl\<in>set ps. isBeforeLine (fst bl) \<and> isAfterLine (snd bl)) \<longrightarrow>
            currentBefore st = Some rb \<longrightarrow> rb \<noteq> [] \<longrightarrow>
            potentialPairs (scanLines ls st) =
              potentialPairs st @ \<lparr>before = rb, after = remainder a\<rparr> # map pairOf ps)"
  using assms
proof (induction ls)
  case Nil
  have "\<And>ps. [] = interleave ps \<Longrightarrow> ps = []"
    by (case_tac ps) (auto simp: interleave_def)
  then show ?case by auto
next
  case (Cons l ls)
  then have t: "trimmed l" and ts: "\<forall>l\<in>set ls. trimmed l" by auto
  note IH = Cons.IH [OF ts]
  show ?case
  proof (cases "isMarker l")
    case False
    then have "scanLine l = (\<lambda>st. st)"
      by (auto simp: isMarker_def scanLine_plain)
    then show ?thesis using IH False by simp
  next
    case True
    have A: "potentialPairs (scanLines (l # ls) st) = potentialPairs st @ map pairOf ps"
      if f: "filter isMarker (l # ls) = interleave ps"
        and w: "\<forall>bl\<in>set ps. isBeforeLine (fst bl) \<and> isAfterLine (snd bl)" for ps st
    proof -
      from f True obtain b a ps' where ps: "ps = (b, a) # ps'" and l: "l = b"
        and r: "filter isMarker ls = a # interleave ps'"
        by (cases ps) (auto simp: interleave_def)
      have b: "isBeforeLine l" and a: "isAfterLine a" using w ps l by auto
      let ?st = "st\<lparr>currentBefore := Some (remainder l)\<rparr>"
      have "potentialPairs (scanLines ls ?st) =
              potentialPairs ?st @ \<lparr>before = remainder l, after = remainder a\<rparr> # map pairOf ps'"
        using IH r a w ps remainder_before_nonempty [OF t b] by simp
      moreover have "scanLine l st = ?st" by (rule scanLine_before [OF t b])
      ultimately show ?thesis using ps l by (simp add: pairOf_def)
    qed
    have B: "potentialPairs (scanLines (l # ls) st) =
               potentialPairs st @ \<lparr>before = rb, after = remainder a\<rparr> # map pairOf ps"
      if f: "filter isMarker (l # ls) = a # interleave ps" and a: "isAfterLine a"
        and w: "\<forall>bl\<in>set ps. isBeforeLine (fst bl) \<and> isAfterLine (snd bl)"
        and cb: "currentBefore st = Some rb" and rb: "rb \<noteq> []" for ps a rb st
    proof -
      from f True have l: "l = a" and r: "filter isMarker ls = interleave ps" by auto
      let ?st = "st\<lparr>currentAfter := None, currentBefore := None,
                  potentialPairs := potentialPairs st @ [\<lparr>before = rb, after = remainder l\<rparr>],
                  logged := logged st @
                    [StdOut (js ''Found potential URL pair: '' @ rb @ js '' -> '' @ remainder l)]\<rparr>"
      have "isAfterLine l" using a l by simp
      from scanLine_after [OF t this, of st] have s: "scanLine l st = ?st"
        using cb rb by simp
      have "potentialPairs (scanLines ls ?st) = potentialPairs ?st @ map pairOf ps"
        using IH r w by blast
      then show ?thesis using s l by simp
    qed
    show ?thesis using A B by blast
  qed
qed

section \<open>Extraction of alternating pairs\<close>

text \<open>
  Claim C1. Let the marker lines of a text, in reading order, be \<open>b\<^sub>1, a\<^sub>1, \<dots>, b\<^sub>N, a\<^sub>N\<close>:
  every \<open>b\<^sub>i\<close> a Before line, every \<open>a\<^sub>i\<close> an After line, any other lines between them.
  Then the line scan of parsePRBody collects exactly \<open>N\<close> candidate pairs, in this
  order, and pair \<open>i\<close> holds the trimmed remainder of \<open>b\<^sub>i\<close> as \<open>before\<close> and the
  trimmed remainder of \<open>a\<^sub>i\<close> as \<open>after\<close>.
\<close>

theorem extract_alternating:
  assumes "filter isMarker (map trim (split_on 0xA prBody)) = interleave ps"
    and "\<forall>bl\<in>set ps. isBeforeLine (fst bl) \<and> isAfterLine (snd bl)"
  shows "potentialPairs (extractPairs prBody) = map pairOf ps \<and>
         length (potentialPairs (extractPairs prBody)) = length ps"
proof -
  have "\<forall>l\<in>set (map trim (split_on 0xA prBody)). trimmed l"
    by (simp add: trimmed_trim)
  from scanLines_alternating [OF this] assms
  have "potentialPairs (extractPairs prBody) = potentialPairs scanStart @ map pairOf ps"
    unfolding extractPairs_def by blast
  then show ?thesis by (simp add: scanStart_def)
qed

lemmas run_simps =
  js_def isSpace_def isWhiteSpace_def isLineTerminator_def bulletOrSpace_def dot_def
  lit_def oneOf_def beforeRegex_def afterRegex_def rx_match_def trim_def isBeforeLine_def
  isAfterLine_def isMarker_def interleave_def pairOf_def remainder_def afterColon_def

theorem extract_alternating_witness:
  "isBeforeLine (js ''- Before: https://a.example/x'') \<and>
   isAfterLine (js ''- After: https://b.example/y'') \<and>
   potentialPairs (extractPairs
     (js ''- Before: https://a.example/x'' @ [0xA] @ js ''- After: https://b.example/y'')) =
     [\<lparr>before = js ''https://a.example/x'', after = js ''https://b.example/y''\<rparr>]"
proof -
  let ?b = "js ''- Before: https://a.example/x''"
  let ?a = "js ''- After: https://b.example/y''"
  have b: "isBeforeLine ?b" by (simp add: run_simps)
  have a: "isAfterLine ?a" by (simp add: run_simps)
  have 1: "filter isMarker (map trim (split_on 0xA (?b @ [0xA] @ ?a))) = interleave [(?b, ?a)]"
    by (simp add: run_simps)
  have 2: "\<forall>bl\<in>set [(?b, ?a)]. isBeforeLine (fst bl) \<and> isAfterLine (snd bl)"
    using a b by simp
  have 3: "map pairOf [(?b, ?a)] =
             [\<lparr>before = js ''https://a.example/x'', after = js ''https://b.example/y''\<rparr>]"
    by (simp add: run_simps)
  from extract_alternating [OF 1 2] 3 a b show ?thesis by simp
qed

section \<open>Which lines are marker lines\<close>

lemma trim_pad:
  assumes w: "\<forall>x\<in>set w. isSpace x" and w': "\<forall>x\<in>set w'. isSpace x"
    and u: "u \<noteq> []" "\<not> isSpace (hd u)" "\<not> isSpace (last u)"
  shows "trim (w @ u @ w') = u"
proof -
  have 1: "dropWhile isSpace (w @ u @ w') = u @ w'"
    using w u by (simp add: dropWhile_same)
  have "dropWhile isSpace (rev w' @ rev u) = dropWhile isSpace (rev u)"
    using w' by (intro dropWhile_append2) simp
  also have "\<dots> = rev u" using u by (simp add: dropWhile_same hd_rev)
  finally show ?thesis by (simp add: trim_def 1)
qed

lemma trim_split:
  "\<exists>w w'. r = w @ trim r @ w' \<and> (\<forall>x\<in>set w. isSpace x) \<and> (\<forall>x\<in>set w'. isSpace x)"
proof -
  let ?d = "dropWhile isSpace r"
  have 1: "r = takeWhile isSpace r @ ?d" by simp
  have "rev (takeWhile isSpace (rev ?d) @ dropWhile isSpace (rev ?d)) = rev (rev ?d)"
    by (simp only: takeWhile_dropWhile_id)
  then have 2: "?d = trim r @ rev (takeWhile isSpace (rev ?d))"
    by (simp only: rev_append rev_rev_ident trim_def)
  have "r = takeWhile isSpace r @ trim r @ rev (takeWhile isSpace (rev ?d))"
    using 1 2 by simp
  moreover have "\<forall>x\<in>set (takeWhile isSpace r). isSpace x" by (auto dest: set_takeWhileD)
  moreover have "\<forall>x\<in>set (rev (takeWhile isSpace (rev ?d))). isSpace x" by (auto dest: set_takeWhileD)
  ultimately show ?thesis by blast
qed

lemma marker_shape:
  assumes k: "\<not> bulletOrSpace (of_char k)" "\<not> bulletOrSpace (of_char k')"
    and c: "c = of_char k \<or> c = of_char k'"
    and p: "\<forall>x\<in>set p. bulletOrSpace x"
    and w: "\<forall>x\<in>set w. isSpace x" and w': "\<forall>x\<in>set w'. isSpace x"
    and u: "u \<noteq> []" "\<not> isSpace (hd u)" "\<not> isSpace (last u)" "\<forall>x\<in>set u. \<not> isLineTerminator x"
  shows "rx_match ([Star bulletOrSpace, oneOf k k'] @ map lit ks @ [Star isSpace, CapPlus dot])
           (trim (p @ c # js ks @ w @ u @ w')) = Some u"
proof -
  let ?l = "trim (p @ c # js ks @ w @ u @ w')"
  let ?dp = "dropWhile isSpace p"
  have cb: "\<not> bulletOrSpace c" using k c by auto
  then have cs: "\<not> isSpace c" by (simp add: bulletOrSpace_def)
  have d1: "dropWhile isSpace (p @ c # js ks @ w @ u @ w') = ?dp @ c # js ks @ w @ u @ w'"
    using cs by (simp add: dropWhile_append)
  have "dropWhile isSpace (rev w' @ (rev u @ rev w @ rev (js ks) @ c # rev ?dp))
        = dropWhile isSpace (rev u @ rev w @ rev (js ks) @ c # rev ?dp)"
    using w' by (intro dropWhile_append2) simp
  also have "\<dots> = rev u @ rev w @ rev (js ks) @ c # rev ?dp"
    using u by (intro dropWhile_same) (simp_all add: hd_append hd_rev)
  finally have l: "?l = ?dp @ c # js ks @ w @ u"
    by (simp add: trim_def d1)
  have "\<forall>x\<in>set ?dp. bulletOrSpace x" using p by (auto dest: set_dropWhileD)
  then have d2: "dropWhile bulletOrSpace ?l = c # js ks @ w @ u"
    unfolding l using cb by (simp add: dropWhile_append2)
  have d3: "dropWhile isSpace (w @ u) = u" using w u by (simp add: dropWhile_same)
  have dotu: "list_all dot u" using u by (simp add: list_all_iff dot_def)
  have "length (js ks) = length ks" by (simp add: js_def)
  then show ?thesis
    unfolding rx_marker [OF k trimmed_trim refl]
    using d2 c d3 dotu u by (simp del: dropWhile_eq_Nil_conv)
qed

lemma marker_remainder:
  assumes k: "\<not> bulletOrSpace (of_char k)" "\<not> bulletOrSpace (of_char k')"
    and c: "c = of_char k \<or> c = of_char k'"
    and p: "\<forall>x\<in>set p. bulletOrSpace x"
    and r: "trim r \<noteq> []" and nl: "\<forall>x\<in>set (trim r). \<not> isLineTerminator x"
  shows "rx_match ([Star bulletOrSpace, oneOf k k'] @ map lit ks @ [Star isSpace, CapPlus dot])
           (trim (p @ c # js ks @ r)) = Some (trim r)"
proof -
  obtain w w' where d: "r = w @ trim r @ w'" and w: "\<forall>x\<in>set w. isSpace x"
    and w': "\<forall>x\<in>set w'. isSpace x"
    using trim_split [of r] by blast
  have "rx_match ([Star bulletOrSpace, oneOf k k'] @ map lit ks @ [Star isSpace, CapPlus dot])
           (trim (p @ c # js ks @ w @ trim r @ w')) = Some (trim r)"
    using k c p w w' r trim_hd [OF r] trim_last [OF r] nl by (rule marker_shape)
  then show ?thesis using d by simp
qed

text \<open>
  Claim C6, as amended. The first letter of the keyword may be in either case, the other
  letters are in lower case. A line that consists of bullets (\<^verbatim>\<open>*\<close>, \<^verbatim>\<open>-\<close>, U+2022) and
  white space \<open>p\<close>, then \<^verbatim>\<open>Before\<close>, \<^verbatim>\<open>before\<close>, \<^verbatim>\<open>After\<close> or \<^verbatim>\<open>after\<close>, a colon and
  a remainder \<open>r\<close> that, trimmed, is not empty and holds no line terminator, is a
  marker line whatever white space surrounds it: the pattern matches the trimmed line
  and captures the trimmed remainder; a Before line makes it the pending before value,
  an After line makes it the pending after value or the \<open>after\<close> of a new pair.
\<close>

theorem marker_lines_recognised:
  assumes p: "\<forall>c\<in>set p. bulletOrSpace c"
    and r: "trim r \<noteq> []" and nl: "\<forall>c\<in>set (trim r). \<not> isLineTerminator c"
  shows "rx_match beforeRegex (trim (p @ js ''Before:'' @ r)) = Some (trim r) \<and>
         rx_match beforeRegex (trim (p @ js ''before:'' @ r)) = Some (trim r) \<and>
         rx_match afterRegex (trim (p @ js ''After:'' @ r)) = Some (trim r) \<and>
         rx_match afterRegex (trim (p @ js ''after:'' @ r)) = Some (trim r) \<and>
         scanLine (trim (p @ js ''Before:'' @ r)) st = st\<lparr>currentBefore := Some (trim r)\<rparr> \<and>
         scanLine (trim (p @ js ''before:'' @ r)) st = st\<lparr>currentBefore := Some (trim r)\<rparr> \<and>
         (currentAfter (scanLine (trim (p @ js ''After:'' @ r)) st) = Some (trim r) \<or>
          (\<exists>b. potentialPairs (scanLine (trim (p @ js ''After:'' @ r)) st) =
                 potentialPairs st @ [\<lparr>before = b, after = trim r\<rparr>])) \<and>
         (currentAfter (scanLine (trim (p @ js ''after:'' @ r)) st) = Some (trim r) \<or>
          (\<exists>b. potentialPairs (scanLine (trim (p @ js ''after:'' @ r)) st) =
                 potentialPairs st @ [\<lparr>before = b, after = trim r\<rparr>]))"
proof -
  note m = marker_remainder [OF _ _ _ p r nl]
  have B: "rx_match beforeRegex (trim (p @ js ''Before:'' @ r)) = Some (trim r)"
    using m [OF not_bullet_letters(1,2), of "of_char CHR ''B''" "''efore:''"]
    by (simp add: beforeRegex_def js_def)
  have b: "rx_match beforeRegex (trim (p @ js ''before:'' @ r)) = Some (trim r)"
    using m [OF not_bullet_letters(1,2), of "of_char CHR ''b''" "''efore:''"]
    by (simp add: beforeRegex_def js_def)
  have A: "rx_match afterRegex (trim (p @ js ''After:'' @ r)) = Some (trim r)"
    using m [OF not_bullet_letters(3,4), of "of_char CHR ''A''" "''fter:''"]
    by (simp add: afterRegex_def js_def)
  have a: "rx_match afterRegex (trim (p @ js ''after:'' @ r)) = Some (trim r)"
    using m [OF not_bullet_letters(3,4), of "of_char CHR ''a''" "''fter:''"]
    by (simp add: afterRegex_def js_def)
  have sb: "scanLine l st = st\<lparr>currentBefore := Some (trim r)\<rparr>"
    if "rx_match beforeRegex l = Some (trim r)" for l
    using that by (simp add: scanLine_def trim_idem)
  have sa: "currentAfter (scanLine (trim l) st) = Some (trim r) \<or>
          (\<exists>b. potentialPairs (scanLine (trim l) st) = potentialPairs st @ [\<lparr>before = b, after = trim r\<rparr>])"
    if h: "rx_match afterRegex (trim l) = Some (trim r)" for l
  proof -
    have al: "isAfterLine (trim l)" using h by (simp add: isAfterLine_def)
    have "remainder (trim l) = trim r" using after_capture [OF trimmed_trim h] by simp
    then show ?thesis
      unfolding scanLine_after [OF trimmed_trim al]
      by (cases "currentBefore st") auto
  qed
  show ?thesis using B b A a sb [OF B] sb [OF b] sa [OF A] sa [OF a] by blast
qed

theorem marker_lines_recognised_witness:
  "rx_match beforeRegex (trim (js ''  * - '' @ js ''before:'' @ js ''   https://a.example/x  ''))
     = Some (js ''https://a.example/x'')"
proof -
  let ?r = "js ''   https://a.example/x  ''"
  have 1: "\<forall>c\<in>set (js ''  * - ''). bulletOrSpace c" by (simp add: run_simps)
  have 2: "trim ?r = js ''https://a.example/x''" by (simp add: run_simps)
  have 3: "trim ?r \<noteq> []" unfolding 2 by (simp add: js_def)
  have 4: "\<forall>c\<in>set (trim ?r). \<not> isLineTerminator c" unfolding 2 by (simp add: run_simps)
  from marker_lines_recognised [OF 1 3 4]
  have "rx_match beforeRegex (trim (js ''  * - '' @ js ''before:'' @ ?r)) = Some (trim ?r)"
    by blast
  then show ?thesis unfolding 2 .
qed

text \<open>
  The claim as it was stated, with the keyword in any letter case, fails on the line
  \<^verbatim>\<open>- BEFORE: https://a.example/x\<close>: neither pattern matches it and the scan passes it
  over.
\<close>

lemmas run_simps' = run_simps lowerCase_def anyCaseMarker_def scanLine_def scanStart_def

theorem marker_upper_case_counterexample:
  "anyCaseMarker ''before'' (js ''- BEFORE: https://a.example/x'') \<and>
   rx_match beforeRegex (trim (js ''- BEFORE: https://a.example/x'')) = None \<and>
   rx_match afterRegex (trim (js ''- BEFORE: https://a.example/x'')) = None \<and>
   scanLine (trim (js ''- BEFORE: https://a.example/x'')) scanStart = scanStart"
  by (simp add: run_simps')

subsection \<open>Texts written as well-formed lines\<close>

text \<open>
  The extraction on a text written out as \<open>N\<close> well-formed pairs of lines, a Before
  line and then its After line: \<open>N\<close> pairs of trimmed remainders, in order.
\<close>

lemma split_on_line: "0xA \<notin> set l \<Longrightarrow> split_on 0xA (l @ 0xA # s) = l # split_on 0xA s"
  by (induction l) (auto split: list.splits)

lemma split_on_last: "0xA \<notin> set l \<Longrightarrow> split_on 0xA l = [l]"
  by (induction l) (auto split: list.splits)

lemma split_join:
  "ls \<noteq> [] \<Longrightarrow> \<forall>l\<in>set ls. 0xA \<notin> set l \<Longrightarrow> split_on 0xA (joinLines ls) = ls"
proof (induction ls rule: joinLines.induct)
  case 1
  then show ?case by simp
next
  case (2 l)
  then show ?case by (simp add: split_on_last)
next
  case (3 l l' ls)
  then show ?case by (simp add: split_on_line)
qed

lemma before_line_shape:
  assumes "\<forall>c\<in>set p. bulletOrSpace c" "trim r \<noteq> []" "\<forall>c\<in>set (trim r). \<not> isLineTerminator c"
  shows "isBeforeLine (trim (p @ js ''Before:'' @ r))"
    and "remainder (trim (p @ js ''Before:'' @ r)) = trim r"
proof -
  have m: "rx_match beforeRegex (trim (p @ js ''Before:'' @ r)) = Some (trim r)"
    using marker_remainder [OF not_bullet_letters(1,2) _ assms, of "of_char CHR ''B''" "''efore:''"]
    by (simp add: beforeRegex_def js_def)
  then show "isBeforeLine (trim (p @ js ''Before:'' @ r))" by (simp add: isBeforeLine_def)
  from before_capture [OF trimmed_trim m]
  show "remainder (trim (p @ js ''Before:'' @ r)) = trim r" by simp
qed

lemma after_line_shape:
  assumes "\<forall>c\<in>set p. bulletOrSpace c" "trim r \<noteq> []" "\<forall>c\<in>set (trim r). \<not> isLineTerminator c"
  shows "isAfterLine (trim (p @ js ''After:'' @ r))"
    and "remainder (trim (p @ js ''After:'' @ r)) = trim r"
proof -
  have m: "rx_match afterRegex (trim (p @ js ''After:'' @ r)) = Some (trim r)"
    using marker_remainder [OF not_bullet_letters(3,4) _ assms, of "of_char CHR ''A''" "''fter:''"]
    by (simp add: afterRegex_def js_def)
  then show "isAfterLine (trim (p @ js ''After:'' @ r))" by (simp add: isAfterLine_def)
  from after_capture [OF trimmed_trim m]
  show "remainder (trim (p @ js ''After:'' @ r)) = trim r" by simp
qed

lemma extract_well_formed_text:
  assumes w: "\<forall>q\<in>set qs. wellFormed (fst (fst q)) (snd (fst q)) \<and> wellFormed (fst (snd q)) (snd (snd q))"
  shows "potentialPairs (extractPairs (joinLines (interleave (map linesOf qs)))) =
           map (\<lambda>q. \<lparr>before = trim (snd (fst q)), after = trim (snd (snd q))\<rparr>) qs"
proof (cases "qs = []")
  case True
  then show ?thesis
    by (simp add: interleave_def extractPairs_def scanStart_def scanLine_plain isBeforeLine_def
        isAfterLine_def rx_match_def beforeRegex_def afterRegex_def oneOf_def)
next
  case False
  let ?ls = "interleave (map linesOf qs)"
  let ?ps = "map (\<lambda>q. (trim (fst (linesOf q)), trim (snd (linesOf q)))) qs"
  have ne: "?ls \<noteq> []" using False by (cases qs) (auto simp: interleave_def)
  have nl: "\<forall>l\<in>set ?ls. 0xA \<notin> set l"
    using w by (auto simp: interleave_def linesOf_def wellFormed_def js_def)
  have s: "split_on 0xA (joinLines ?ls) = ?ls" using ne nl by (rule split_join)
  have t: "map trim ?ls = interleave ?ps"
    by (simp add: interleave_def map_concat comp_def)
  have mk: "\<forall>bl\<in>set ?ps. isBeforeLine (fst bl) \<and> isAfterLine (snd bl)"
    using w by (auto simp: linesOf_def wellFormed_def intro!: before_line_shape(1) after_line_shape(1))
  have "\<forall>l\<in>set (interleave ?ps). isMarker l"
    using mk by (auto simp: interleave_def isMarker_def)
  then have f: "filter isMarker (map trim (split_on 0xA (joinLines ?ls))) = interleave ?ps"
    unfolding s t by simp
  have r: "map pairOf ?ps = map (\<lambda>q. \<lparr>before = trim (snd (fst q)), after = trim (snd (snd q))\<rparr>) qs"
    using w by (auto simp: pairOf_def linesOf_def wellFormed_def before_line_shape(2) after_line_shape(2))
  have "potentialPairs (extractPairs (joinLines ?ls)) = potentialPairs scanStart @ map pairOf ?ps"
    using scanLines_alternating [of "map trim (split_on 0xA (joinLines ?ls))"] f mk
    unfolding extractPairs_def by (simp add: trimmed_trim)
  then show ?thesis unfolding r by (simp add: scanStart_def)
qed

section \<open>Lines left dangling\<close>

text \<open>
  A Before line at the end of the text adds no pair, and neither does an After line
  that finds no pending before value. The warning of lines 119 to 124 is given when
  exactly one of the two variables is set, and not when both are.
\<close>

lemma scanLines_append: "scanLines (ls @ ls') st = scanLines ls' (scanLines ls st)"
  by (induction ls arbitrary: st) auto

lemma trailing_before_no_pair:
  assumes "trimmed l" and "isBeforeLine l"
  shows "potentialPairs (scanLines (ls @ [l]) st) = potentialPairs (scanLines ls st)"
  by (simp add: scanLines_append scanLine_before [OF assms])

lemma trailing_after_no_pair:
  assumes "trimmed l" and "isAfterLine l" and "\<not> truthy (currentBefore (scanLines ls st))"
  shows "potentialPairs (scanLines (ls @ [l]) st) = potentialPairs (scanLines ls st)"
  using assms(3)
  by (simp add: scanLines_append scanLine_after [OF assms(1,2)] truthy_def split: option.splits)

lemma warnings_before_only:
  "currentBefore st = Some b \<Longrightarrow> b \<noteq> [] \<Longrightarrow> \<not> truthy (currentAfter st) \<Longrightarrow>
   warnings st = [warnBefore b]"
  by (auto simp: warnings_def truthy_def split: option.splits)

lemma warnings_after_only:
  "currentAfter st = Some a \<Longrightarrow> a \<noteq> [] \<Longrightarrow> \<not> truthy (currentBefore st) \<Longrightarrow>
   warnings st = [warnAfter a]"
  by (auto simp: warnings_def truthy_def split: option.splits)

lemma warnings_both:
  "truthy (currentBefore st) \<Longrightarrow> truthy (currentAfter st) \<Longrightarrow> warnings st = []"
  by (auto simp: warnings_def truthy_def split: option.splits)

lemmas scan_simps = run_simps extractPairs_def scanLine_def scanStart_def truthy_def Let_def

lemma decimal_digit: "n < 10 \<Longrightarrow> decimal n = [0x30 + n]"
  by (simp add: decimal.simps)

text \<open>
  Claim C5 asks for a warning for every value left dangling. The text
  \<^verbatim>\<open>After: x\<close>, \<^verbatim>\<open>Before: y\<close> (two lines) leaves both variables set: no pair, and no
  warning for either value, on every platform.
\<close>

theorem dangling_both_unreported:
  "currentBefore (extractPairs (js ''After: x'' @ [0xA] @ js ''Before: y'')) = Some (js ''y'') \<and>
   currentAfter (extractPairs (js ''After: x'' @ [0xA] @ js ''Before: y'')) = Some (js ''x'') \<and>
   parsePRBody pl (Some (js ''After: x'' @ [0xA] @ js ''Before: y'')) =
     ([], [StdOut (js ''Validating 0 URL pairs...'')])"
  by (simp add: parsePRBody_def warnings_def decimal_digit scan_simps)

section \<open>Validation\<close>

text \<open>
  Claim C3. validateUrl resolves with a boolean in every case: with \<open>True\<close> exactly when
  the string parses as a URL and the \<^verbatim>\<open>HEAD\<close> request for it, sent with a time limit of
  10000 ms through the HTTPS client when the protocol is \<^verbatim>\<open>https:\<close> and through the
  HTTP client otherwise, is answered with status code 200. A string that does not
  parse, any exception thrown inside the \<^verbatim>\<open>try\<close> block, another status code, the
  \<^verbatim>\<open>error\<close> event and the \<^verbatim>\<open>timeout\<close> event all give \<open>False\<close>.
\<close>

theorem validateUrl_result:
  "(fst (validateUrl pl t u) \<longleftrightarrow>
      (\<exists>urlObj. parseURL pl u = Some urlObj \<and>
         request pl t (if protocol urlObj = js ''https:'' then Https else Http)
           \<lparr>httpMethod = js ''HEAD'', optHostname = hostname urlObj, optPort = port urlObj,
            path = pathname urlObj @ search urlObj, timeout = 10000\<rparr> = Response 200)) \<and>
   (parseURL pl u = None \<longrightarrow>
      validateUrl pl t u = (False, [StdOut (js ''Invalid URL format: '' @ u)])) \<and>
   (\<forall>e. validateUrlTry pl t u = Inl e \<longrightarrow>
      validateUrl pl t u = (False, [StdOut (js ''Invalid URL format: '' @ u)])) \<and>
   (\<forall>urlObj. parseURL pl u = Some urlObj \<longrightarrow>
      (case request pl t (if protocol urlObj = js ''https:'' then Https else Http)
           \<lparr>httpMethod = js ''HEAD'', optHostname = hostname urlObj, optPort = port urlObj,
            path = pathname urlObj @ search urlObj, timeout = 10000\<rparr> of
         Response statusCode \<Rightarrow> validateUrl pl t u = (statusCode = 200, [])
       | ErrorEvent \<Rightarrow> validateUrl pl t u = (False, [])
       | TimeoutEvent \<Rightarrow> validateUrl pl t u = (False, [])
       | Threw \<Rightarrow> validateUrl pl t u = (False, [StdOut (js ''Invalid URL format: '' @ u)])))"
  by (auto simp: validateUrl_def validateUrlTry_def Let_def split: option.splits outcome.splits)

theorem validateUrl_result_witness:
  "fst (validateUrl plainPlatform 0 (js ''https://a.example/x'')) \<and>
   \<not> fst (validateUrl plainPlatform 1 (js ''http://b.example/y'')) \<and>
   validateUrl plainPlatform 2 (js ''not a url'') =
     (False, [StdOut (js ''Invalid URL format: '' @ js ''not a url'')])"
proof -
  have 1: "parseURL plainPlatform (js ''not a url'') = None"
    by (simp add: plainPlatform_def js_def)
  have 2: "parseURL plainPlatform (js ''https://a.example/x'') =
      Some \<lparr>protocol = js ''https:'', hostname = js ''a.example'', port = [],
            pathname = js ''/x'', search = []\<rparr>"
    by (simp add: plainPlatform_def)
  have 3: "parseURL plainPlatform (js ''http://b.example/y'') =
      Some \<lparr>protocol = js ''http:'', hostname = js ''b.example'', port = [],
            pathname = js ''/y'', search = []\<rparr>"
    by (simp add: plainPlatform_def js_def)
  have 4: "request plainPlatform t Https opts = Response 200" for t opts
    by (simp add: plainPlatform_def)
  have 5: "request plainPlatform t Http opts = Response 404" for t opts
    by (simp add: plainPlatform_def)
  have 6: "js ''http:'' \<noteq> js ''https:''" by (simp add: js_def)
  show ?thesis
    using validateUrl_result [of plainPlatform 0 "js ''https://a.example/x''"]
      validateUrl_result [of plainPlatform 1 "js ''http://b.example/y''"]
      validateUrl_result [of plainPlatform 2 "js ''not a url''"]
    by (simp add: 1 2 3 4 5 6)
qed

lemma validatePairs_Cons:
  "validatePairs pl t (p # ps) =
     (if fst (validateUrl pl t (before p)) \<and> fst (validateUrl pl (t + 1) (after p))
      then (p # fst (validatePairs pl (t + 2) ps),
            [StdOut (js ''Validating: '' @ before p @ js '' -> '' @ after p)] @
            snd (validateUrl pl t (before p)) @ snd (validateUrl pl (t + 1) (after p)) @
            [validLine p] @ snd (validatePairs pl (t + 2) ps))
      else (fst (validatePairs pl (t + 2) ps),
            [StdOut (js ''Validating: '' @ before p @ js '' -> '' @ after p)] @
            snd (validateUrl pl t (before p)) @ snd (validateUrl pl (t + 1) (after p)) @
            [invalidLine (fst (validateUrl pl t (before p))) (fst (validateUrl pl (t + 1) (after p))) p] @
            snd (validatePairs pl (t + 2) ps)))"
  by (simp add: Let_def split: prod.splits)

lemma bothValid_Suc: "bothValid pl t (p # ps) (Suc i) = bothValid pl (t + 2) ps i"
  by (simp add: bothValid_def add.assoc)

lemma bothValid_0:
  "bothValid pl t (p # ps) 0 \<longleftrightarrow>
     fst (validateUrl pl t (before p)) \<and> fst (validateUrl pl (t + 1) (after p))"
  by (simp add: bothValid_def)

lemma validatePairs_kept:
  "fst (validatePairs pl t ps) = map (\<lambda>i. ps ! i) (filter (bothValid pl t ps) [0..<length ps])"
proof (induction ps arbitrary: t)
  case Nil
  then show ?case by simp
next
  case (Cons p ps)
  have u: "[0..<length (p # ps)] = 0 # map Suc [0..<length ps]"
    by (simp add: upt_conv_Cons map_Suc_upt del: upt_Suc)
  have "map (\<lambda>i. (p # ps) ! i) (filter (bothValid pl t (p # ps)) (map Suc [0..<length ps]))
        = map (\<lambda>i. ps ! i) (filter (bothValid pl (t + 2) ps) [0..<length ps])"
    by (simp add: filter_map comp_def bothValid_Suc)
  then show ?case
    unfolding u using Cons.IH [of "t + 2"]
    by (simp add: validatePairs_Cons bothValid_0 del: validatePairs.simps)
qed

lemma verdictLine_Suc: "verdictLine pl t (p # ps) (Suc i) = verdictLine pl (t + 2) ps i"
  by (simp add: verdictLine_def bothValid_Suc add.assoc)

lemma verdictLine_0:
  "verdictLine pl t (p # ps) 0 =
     (if fst (validateUrl pl t (before p)) \<and> fst (validateUrl pl (t + 1) (after p))
      then validLine p
      else invalidLine (fst (validateUrl pl t (before p))) (fst (validateUrl pl (t + 1) (after p))) p)"
  by (simp add: verdictLine_def bothValid_0)

lemma validatePairs_logged:
  assumes "i < length ps"
  shows "verdictLine pl t ps i \<in> set (snd (validatePairs pl t ps))"
  using assms
proof (induction ps arbitrary: t i)
  case Nil
  then show ?case by simp
next
  case (Cons p ps)
  show ?case
  proof (cases i)
    case 0
    then show ?thesis by (simp add: validatePairs_Cons verdictLine_0 del: validatePairs.simps)
  next
    case (Suc j)
    then have "j < length ps" using Cons.prems by simp
    from Cons.IH [OF this, of "t + 2"] show ?thesis
      unfolding Suc verdictLine_Suc
      by (simp add: validatePairs_Cons del: validatePairs.simps)
  qed
qed

lemma invalidLine_inj:
  "invalidLine bv av p = invalidLine bv' av' p \<Longrightarrow> bv = bv' \<and> av = av'"
  by (simp add: invalidLine_def mark_def split: if_splits)

text \<open>
  Claim C4. The validation loop keeps pair \<open>i\<close> if and only if both of its URLs validate,
  and returns the kept pairs in the order of the input. For every pair it logs a
  line: for a dropped pair the line that marks each side as valid or failed, and that
  line determines the two marks. parsePRBody returns what the loop keeps of the
  candidate pairs.
\<close>

theorem validation_keeps_valid_pairs:
  "fst (validatePairs pl t ps) = map (\<lambda>i. ps ! i) (filter (bothValid pl t ps) [0..<length ps]) \<and>
   (\<forall>i<length ps. verdictLine pl t ps i \<in> set (snd (validatePairs pl t ps))) \<and>
   (\<forall>bv av bv' av' p. invalidLine bv av p = invalidLine bv' av' p \<longrightarrow> bv = bv' \<and> av = av') \<and>
   (body \<noteq> [] \<longrightarrow>
      fst (parsePRBody pl (Some body)) =
        fst (validatePairs pl 0 (potentialPairs (extractPairs body))))"
  using validatePairs_kept [of pl t ps] validatePairs_logged [of _ ps pl t] invalidLine_inj
  by (auto simp: parsePRBody_def Let_def split: prod.splits)

theorem validation_keeps_valid_pairs_witness:
  "fst (validatePairs plainPlatform 0
          [\<lparr>before = js ''https://a.example/x'', after = js ''https://a.example/x''\<rparr>,
           \<lparr>before = js ''https://a.example/x'', after = js ''http://b.example/y''\<rparr>]) =
     [\<lparr>before = js ''https://a.example/x'', after = js ''https://a.example/x''\<rparr>] \<and>
   invalidLine True False \<lparr>before = js ''https://a.example/x'', after = js ''http://b.example/y''\<rparr>
     \<in> set (snd (validatePairs plainPlatform 0
          [\<lparr>before = js ''https://a.example/x'', after = js ''https://a.example/x''\<rparr>,
           \<lparr>before = js ''https://a.example/x'', after = js ''http://b.example/y''\<rparr>]))"
proof -
  let ?p = "\<lparr>before = js ''https://a.example/x'', after = js ''https://a.example/x''\<rparr>"
  let ?q = "\<lparr>before = js ''https://a.example/x'', after = js ''http://b.example/y''\<rparr>"
  have a: "fst (validateUrl plainPlatform t (js ''https://a.example/x''))" for t
    by (simp add: validateUrl_def validateUrlTry_def plainPlatform_def)
  have b: "\<not> fst (validateUrl plainPlatform t (js ''http://b.example/y''))" for t
    by (simp add: validateUrl_def validateUrlTry_def plainPlatform_def js_def)
  have 0: "bothValid plainPlatform 0 [?p, ?q] 0" by (simp add: bothValid_def a)
  have 1: "\<not> bothValid plainPlatform 0 [?p, ?q] 1" by (simp add: bothValid_def b)
  have u: "[0..<length [?p, ?q]] = [0, 1]" by (simp add: upt_rec)
  have v: "verdictLine plainPlatform 0 [?p, ?q] 1 = invalidLine True False ?q"
    using 1 by (simp add: verdictLine_def a b)
  from validation_keeps_valid_pairs [of plainPlatform 0 "[?p, ?q]"]
  have "fst (validatePairs plainPlatform 0 [?p, ?q])
          = map (\<lambda>i. [?p, ?q] ! i) (filter (bothValid plainPlatform 0 [?p, ?q]) [0..<length [?p, ?q]])"
    and "verdictLine plainPlatform 0 [?p, ?q] 1 \<in> set (snd (validatePairs plainPlatform 0 [?p, ?q]))"
    by auto
  then show ?thesis unfolding u v using 0 1 by simp
qed

text \<open>On a network whose answers do not change during the run the loop is a filter.\<close>

lemma validatePairs_steady:
  assumes "\<And>t t' c opts. request pl t c opts = request pl t' c opts"
  shows "fst (validatePairs pl t ps) =
           filter (\<lambda>p. fst (validateUrl pl 0 (before p)) \<and> fst (validateUrl pl 0 (after p))) ps"
proof -
  have v: "validateUrl pl t u = validateUrl pl 0 u" for t u
  proof -
    have "request pl t = request pl 0" by (intro ext) (rule assms)
    then show ?thesis by (simp only: validateUrl_def validateUrlTry_def)
  qed
  show ?thesis
  proof (induction ps arbitrary: t)
    case Nil
    then show ?case by simp
  next
    case (Cons p ps)
    show ?case
      using Cons [of "t + 2"] v [of t] v [of "t + 1"]
      by (simp add: validatePairs_Cons del: validatePairs.simps)
  qed
qed

section \<open>Applying pairs to the configuration document\<close>

subsection \<open>setScenarios and pushScenario\<close>

lemma getScenarios_array_cases:
  assumes "getScenarios cfg = Inr (Some (JArr xs))"
  obtains kvs where "cfg = Plain (JObj kvs)" "map_of kvs (js ''scenarios'') = Some (JArr xs)"
  | ys where "cfg = Expando ys (JArr xs)"
  using assms by (cases cfg rule: getScenarios.cases) auto

lemma setScenarios_same:
  "getScenarios cfg = Inr (Some (JArr xs)) \<Longrightarrow> setScenarios cfg (JArr xs) = cfg"
  by (erule getScenarios_array_cases) (simp_all add: AList.update_triv)

lemma getScenarios_set:
  "getScenarios cfg = Inr (Some (JArr xs)) \<Longrightarrow> getScenarios (setScenarios cfg v) = Inr (Some v)"
  by (erule getScenarios_array_cases) (simp_all add: AList.update_conv')

lemma setScenarios_twice:
  "getScenarios cfg = Inr (Some (JArr xs)) \<Longrightarrow>
   setScenarios (setScenarios cfg v) w = setScenarios cfg w"
  by (erule getScenarios_array_cases) (simp_all add: AList.update_last)

lemma pushScenario_array:
  "getScenarios cfg = Inr (Some (JArr xs)) \<Longrightarrow>
   pushScenario cfg s = Inr (setScenarios cfg (JArr (xs @ [s])))"
  by (simp add: pushScenario_def)

lemma pushScenario_Inr:
  assumes "pushScenario cfg s = Inr cfg'"
  obtains xs where "getScenarios cfg = Inr (Some (JArr xs))"
  using assms
  by (auto simp: pushScenario_def split: sum.splits option.splits json.splits)

lemma pushScenario_Inl:
  "pushScenario cfg s = Inl e \<Longrightarrow> e = TypeError"
  by (cases cfg rule: getScenarios.cases)
     (auto simp: pushScenario_def split: sum.splits option.splits json.splits)


lemma map_of_serialized:
  "map_of (map (\<lambda>kv. (fst kv, f (snd kv))) kvs) k = map_option f (map_of kvs k)"
  by (induction kvs) auto

lemma filter_serialized:
  "filter (\<lambda>kv. fst kv \<noteq> k) (map (\<lambda>kv. (fst kv, f (snd kv))) kvs)
   = map (\<lambda>kv. (fst kv, f (snd kv))) (filter (\<lambda>kv. fst kv \<noteq> k) kvs)"
  by (induction kvs) auto

lemma serialized_plain: "plainNumbers j \<Longrightarrow> serialized j = j"
proof (induction j)
  case (JNum n)
  then show ?case by (cases n) auto
next
  case (JArr xs)
  then show ?case by (auto simp: list_all_iff intro: map_idI)
next
  case (JObj kvs)
  then show ?case by (auto simp: list_all_iff intro!: map_idI)
qed auto

lemma others_serialized: "others (serialized j) = serialized (others j)"
proof (cases j)
  case (JNum n)
  then show ?thesis by (cases n) auto
qed (auto simp: filter_serialized)

lemma plainNumbers_others: "plainNumbers j \<Longrightarrow> plainNumbers (others j)"
  by (cases j) (auto simp: list_all_iff)

lemma field_serialized: "field k (serialized j) = map_option serialized (field k j)"
proof (cases j)
  case (JNum n)
  then show ?thesis by (cases n) (auto simp: field_def)
qed (auto simp: field_def map_of_serialized)

lemma serialized_scenarioOf: "serialized (scenarioOf i p) = scenarioOf i p"
  by (simp add: scenarioOf_def hideSelectors_def removeSelectors_def)

lemma serialized_newScenarios: "map serialized (newScenarios i ps) = newScenarios i ps"
  by (induction ps arbitrary: i) (auto simp: serialized_scenarioOf)


subsection \<open>The forEach loop\<close>

lemma length_newScenarios [simp]: "length (newScenarios i ps) = length ps"
  by (induction ps arbitrary: i) auto

lemma nth_newScenarios:
  "j < length ps \<Longrightarrow> newScenarios i ps ! j = scenarioOf (i + j) (ps ! j)"
proof (induction ps arbitrary: i j)
  case Nil
  then show ?case by simp
next
  case (Cons p ps)
  then show ?case by (cases j) auto
qed

lemma addScenarios_array:
  assumes "getScenarios cfg = Inr (Some (JArr xs))"
  shows "addScenarios ps i cfg =
           (Inr (setScenarios cfg (JArr (xs @ newScenarios i ps))),
            map (\<lambda>j. StdOut (js ''Added scenario: '' @ labelOf j)) [i..<i + length ps])"
  using assms
proof (induction ps arbitrary: i cfg xs)
  case Nil
  then show ?case by (simp add: setScenarios_same)
next
  case (Cons p ps)
  let ?cfg = "setScenarios cfg (JArr (xs @ [scenarioOf i p]))"
  have g: "getScenarios ?cfg = Inr (Some (JArr (xs @ [scenarioOf i p])))"
    using Cons.prems by (rule getScenarios_set)
  have "i < i + length (p # ps)" by simp
  from upt_conv_Cons [OF this]
  have u: "[i..<i + length (p # ps)] = i # [i + 1..<i + 1 + length ps]" by simp
  show ?case
    unfolding u
    by (simp add: pushScenario_array [OF Cons.prems] Cons.IH [OF g]
        setScenarios_twice [OF Cons.prems])
qed

lemma addScenarios_Inr:
  assumes "addScenarios ps i cfg = (Inr cfg', out)" and "ps \<noteq> []"
  obtains xs where "getScenarios cfg = Inr (Some (JArr xs))"
  using assms
  by (cases ps) (auto split: sum.splits prod.splits elim: pushScenario_Inr)

lemma addScenarios_Inl:
  "addScenarios ps i cfg = (Inl e, out) \<Longrightarrow> e = TypeError"
proof (induction ps arbitrary: i cfg out)
  case Nil
  then show ?case by simp
next
  case (Cons p ps)
  then show ?case
    by (auto split: sum.splits prod.splits dest: pushScenario_Inl)
qed


subsection \<open>updateBackstopConfig\<close>

lemma updateBackstopConfig_Json:
  assumes "entries fs (pathOf bp) = Some (Json doc)"
  shows "updateBackstopConfig fs ps bp =
     (case getScenarios (Plain doc) of
        Inl e \<Rightarrow> (Thrown e, fs, [])
      | Inr v \<Rightarrow>
          (case addScenarios ps 0
                  (if \<not> jsonTruthy v then setScenarios (Plain doc) (JArr []) else Plain doc) of
             (Inl e, out) \<Rightarrow> (Thrown e, fs, out)
           | (Inr cfg, out) \<Rightarrow>
               if locked fs (pathOf bp) then (Thrown SystemError, fs, out)
               else (Returned cfg,
                     fs\<lparr>entries := (entries fs)(pathOf bp \<mapsto> Json (stringify cfg))\<rparr>,
                     out @ [updatedLine (pathOf bp) (length ps)])))"
  using assms
  by (simp add: updateBackstopConfig_def pathOf_def existsSync_def readJson_def writeJson_def
      updatedLine_def Let_def split: sum.splits prod.splits)

lemma updateBackstopConfig_Returned:
  assumes "updateBackstopConfig fs ps bp = (Returned cfg, fs', out)"
  obtains doc v out0 where
    "entries fs (pathOf bp) = Some (Json doc)"
    "getScenarios (Plain doc) = Inr v"
    "addScenarios ps 0 (if \<not> jsonTruthy v then setScenarios (Plain doc) (JArr []) else Plain doc)
       = (Inr cfg, out0)"
    "\<not> locked fs (pathOf bp)"
    "fs' = fs\<lparr>entries := (entries fs)(pathOf bp \<mapsto> Json (stringify cfg))\<rparr>"
    "out = out0 @ [updatedLine (pathOf bp) (length ps)]"
proof (cases "entries fs (pathOf bp)")
  case None
  with assms show ?thesis
    by (simp add: updateBackstopConfig_def pathOf_def existsSync_def)
next
  case (Some n)
  show ?thesis
  proof (cases n)
    case (Json doc)
    with Some have e: "entries fs (pathOf bp) = Some (Json doc)" by simp
    from assms that [OF e] show ?thesis
      unfolding updateBackstopConfig_Json [OF e]
      by (auto split: sum.splits prod.splits if_splits)
  next
    case Malformed
    with Some assms show ?thesis
      by (simp add: updateBackstopConfig_def pathOf_def existsSync_def readJson_def)
  next
    case Unreadable
    with Some assms show ?thesis
      by (simp add: updateBackstopConfig_def pathOf_def existsSync_def readJson_def)
  qed
qed


lemma field_scenarioOf:
  "field ''label'' (scenarioOf i p) = Some (JStr (labelOf i))"
  "field ''url'' (scenarioOf i p) = Some (JStr (after p))"
  "field ''referenceUrl'' (scenarioOf i p) = Some (JStr (before p))"
  "field ''hideSelectors'' (scenarioOf i p) = Some hideSelectors"
  "field ''removeSelectors'' (scenarioOf i p) = Some removeSelectors"
  "field ''misMatchThreshold'' (scenarioOf i p) = Some (JNum (Finite 0.1))"
  by (simp_all add: field_def scenarioOf_def js_def)

lemma hasDefaults_scenarioOf: "hasDefaults (scenarioOf i p)"
  by (simp add: hasDefaults_def field_scenarioOf hideSelectors_def removeSelectors_def)

lemma hasDefaults_newScenarios: "s \<in> set (newScenarios i ps) \<Longrightarrow> hasDefaults s"
  by (induction ps arbitrary: i) (auto simp: hasDefaults_scenarioOf)

lemma demo_entries:
  "entries (filesWith doc) (pathOf None) = Some (Json doc)"
  "\<not> locked (filesWith doc) (pathOf None)"
  by (simp_all add: filesWith_def pathOf_def)

lemmas apply_simps =
  updateBackstopConfig_def pathOf_def Let_def filesWith_def existsSync_def readJson_def
  writeJson_def demoDoc_def bareDoc_def overflowDoc_def pushScenario_def serialized_scenarioOf
  js_def

text \<open>
  Claim C2. When the document at the path is an object whose \<^verbatim>\<open>scenarios\<close> is an array
  of \<open>M\<close> records and the file can be written, updateBackstopConfig returns, and both
  the configuration object and the document it writes hold \<open>M + K\<close> scenarios for \<open>K\<close>
  pairs: the old ones (in the file as \<^verbatim>\<open>JSON.stringify\<close> prints them, which is as they
  were when their numbers are plain), then one record per pair in the order of the
  pairs, record \<open>i\<close> (from 0) with the label \<^verbatim>\<open>Additional test page (i+1)\<close>, the after
  value as \<^verbatim>\<open>url\<close> and the before value as \<^verbatim>\<open>referenceUrl\<close>.
\<close>

theorem apply_appends:
  assumes e: "entries fs (pathOf bp) = Some (Json doc)"
    and sc: "field ''scenarios'' doc = Some (JArr old)"
    and w: "\<not> locked fs (pathOf bp)"
  shows "\<exists>cfg fs' out doc'.
           updateBackstopConfig fs urlPairs bp = (Returned cfg, fs', out) \<and>
           getScenarios cfg = Inr (Some (JArr (old @ newScenarios 0 urlPairs))) \<and>
           entries fs' (pathOf bp) = Some (Json doc') \<and>
           field ''scenarios'' doc' = Some (JArr (map serialized old @ newScenarios 0 urlPairs)) \<and>
           ((\<forall>s\<in>set old. plainNumbers s) \<longrightarrow>
              field ''scenarios'' doc' = Some (JArr (old @ newScenarios 0 urlPairs))) \<and>
           length (map serialized old @ newScenarios 0 urlPairs) = length old + length urlPairs \<and>
           (\<forall>i<length urlPairs.
              field ''label'' (newScenarios 0 urlPairs ! i) =
                Some (JStr (js ''Additional test page ('' @ decimal (i + 1) @ js '')'')) \<and>
              field ''url'' (newScenarios 0 urlPairs ! i) = Some (JStr (after (urlPairs ! i))) \<and>
              field ''referenceUrl'' (newScenarios 0 urlPairs ! i) =
                Some (JStr (before (urlPairs ! i))))"
proof -
  from sc obtain kvs where doc: "doc = JObj kvs"
    and m: "map_of kvs (js ''scenarios'') = Some (JArr old)"
    by (cases doc) (auto simp: field_def)
  have g: "getScenarios (Plain doc) = Inr (Some (JArr old))" using doc m by simp
  let ?kvs = "AList.update (js ''scenarios'') (JArr (old @ newScenarios 0 urlPairs)) kvs"
  have r: "updateBackstopConfig fs urlPairs bp =
      (Returned (Plain (JObj ?kvs)),
       fs\<lparr>entries := (entries fs)(pathOf bp \<mapsto> Json (serialized (JObj ?kvs)))\<rparr>,
       map (\<lambda>j. StdOut (js ''Added scenario: '' @ labelOf j)) [0..<0 + length urlPairs] @
       [updatedLine (pathOf bp) (length urlPairs)])"
  proof -
    have a: "addScenarios urlPairs 0 (Plain doc) =
        (Inr (Plain (JObj ?kvs)),
         map (\<lambda>j. StdOut (js ''Added scenario: '' @ labelOf j)) [0..<0 + length urlPairs])"
      using addScenarios_array [OF g, of urlPairs 0] by (simp add: doc)
    show ?thesis
      unfolding updateBackstopConfig_Json [OF e] g by (simp add: a w)
  qed
  have c: "getScenarios (Plain (JObj ?kvs)) = Inr (Some (JArr (old @ newScenarios 0 urlPairs)))"
    by (simp add: AList.update_conv')
  have "field ''scenarios'' (JObj ?kvs) = Some (JArr (old @ newScenarios 0 urlPairs))"
    by (simp add: field_def AList.update_conv')
  then have f: "field ''scenarios'' (serialized (JObj ?kvs)) =
                  Some (JArr (map serialized old @ newScenarios 0 urlPairs))"
    unfolding field_serialized by (simp add: serialized_newScenarios)
  have "map serialized old = old" if "\<forall>s\<in>set old. plainNumbers s"
    using that by (auto intro: map_idI serialized_plain)
  then have f': "(\<forall>s\<in>set old. plainNumbers s) \<longrightarrow>
      field ''scenarios'' (serialized (JObj ?kvs)) = Some (JArr (old @ newScenarios 0 urlPairs))"
    using f by auto
  have n: "\<forall>i<length urlPairs.
              field ''label'' (newScenarios 0 urlPairs ! i) =
                Some (JStr (js ''Additional test page ('' @ decimal (i + 1) @ js '')'')) \<and>
              field ''url'' (newScenarios 0 urlPairs ! i) = Some (JStr (after (urlPairs ! i))) \<and>
              field ''referenceUrl'' (newScenarios 0 urlPairs ! i) =
                Some (JStr (before (urlPairs ! i)))"
    by (simp add: nth_newScenarios field_scenarioOf labelOf_def)
  have l: "length (map serialized old @ newScenarios 0 urlPairs) = length old + length urlPairs"
    by simp
  have en: "entries (fs\<lparr>entries := (entries fs)(pathOf bp \<mapsto> Json (serialized (JObj ?kvs)))\<rparr>)
              (pathOf bp) = Some (Json (serialized (JObj ?kvs)))"
    by simp
  show ?thesis
    unfolding r
    by (intro exI conjI) (rule refl, rule c, rule en, rule f, rule f', rule l, rule n)
qed

theorem apply_appends_witness:
  "\<exists>cfg fs' out.
     updateBackstopConfig (filesWith demoDoc) [demoPair] None = (Returned cfg, fs', out) \<and>
     entries fs' (js ''backstop.json'') =
       Some (Json (JObj [(js ''id'', JStr (js ''demo'')),
                         (js ''scenarios'',
                          JArr [JObj [(js ''label'', JStr (js ''Home''))], scenarioOf 0 demoPair])])) \<and>
     field ''label'' (scenarioOf 0 demoPair) = Some (JStr (js ''Additional test page (1)'')) \<and>
     field ''url'' (scenarioOf 0 demoPair) = Some (JStr (js ''https://b.example/y'')) \<and>
     field ''referenceUrl'' (scenarioOf 0 demoPair) = Some (JStr (js ''https://a.example/x''))"
proof -
  have sc: "field ''scenarios'' demoDoc = Some (JArr [JObj [(js ''label'', JStr (js ''Home''))]])"
    by (simp add: field_def demoDoc_def js_def)
  from apply_appends [OF demo_entries(1) sc demo_entries(2), of "[demoPair]"]
  obtain cfg fs' out doc' where
    r: "updateBackstopConfig (filesWith demoDoc) [demoPair] None = (Returned cfg, fs', out)"
    and e: "entries fs' (pathOf None) = Some (Json doc')"
    and l: "field ''label'' (newScenarios 0 [demoPair] ! 0) =
              Some (JStr (js ''Additional test page ('' @ decimal (0 + 1) @ js '')''))"
           "field ''url'' (newScenarios 0 [demoPair] ! 0) = Some (JStr (after ([demoPair] ! 0)))"
           "field ''referenceUrl'' (newScenarios 0 [demoPair] ! 0) = Some (JStr (before ([demoPair] ! 0)))"
    by auto
  have w: "entries (fst (snd (updateBackstopConfig (filesWith demoDoc) [demoPair] None))) (js ''backstop.json'') =
       Some (Json (JObj [(js ''id'', JStr (js ''demo'')),
                         (js ''scenarios'',
                          JArr [JObj [(js ''label'', JStr (js ''Home''))], scenarioOf 0 demoPair])]))"
    by (simp add: apply_simps)
  have d: "js ''Additional test page ('' @ decimal (0 + 1) @ js '')'' = js ''Additional test page (1)''"
    by (simp add: decimal_digit js_def)
  show ?thesis using r w l unfolding d by (simp add: demoPair_def)
qed




text \<open>
  A number out of range: with no pairs, the document read from
  \<^verbatim>\<open>{"id": 1e309, "scenarios": []}\<close> is written back as \<^verbatim>\<open>{"id": null, "scenarios": []}\<close>.
\<close>

lemma apply_overflow_example:
  "entries (fst (snd (updateBackstopConfig (filesWith overflowDoc) [] None))) (js ''backstop.json'') =
     Some (Json (JObj [(js ''id'', JNull), (js ''scenarios'', JArr [])]))"
  by (simp add: apply_simps)

text \<open>
  Claim C9, as amended. updateBackstopConfig returns the configuration object, the one
  whose serialization it has just written to the file. The number of records added is
  not returned; it is part of the last line logged.
\<close>

theorem apply_returns_document:
  assumes "updateBackstopConfig fs urlPairs bp = (Returned cfg, fs', out)"
  shows "entries fs' (pathOf bp) = Some (Json (stringify cfg)) \<and>
         out \<noteq> [] \<and>
         last out = StdOut (js ''Updated '' @ pathOf bp @ js '' with '' @
                            decimal (length urlPairs) @ js '' additional scenarios'')"
  using assms by (rule updateBackstopConfig_Returned) (simp add: updatedLine_def)

theorem apply_returns_document_witness:
  "entries (fst (snd (updateBackstopConfig (filesWith demoDoc) [demoPair] None))) (js ''backstop.json'') =
     Some (Json (stringify (Plain (JObj [(js ''id'', JStr (js ''demo'')),
                            (js ''scenarios'',
                             JArr [JObj [(js ''label'', JStr (js ''Home''))], scenarioOf 0 demoPair])])))) \<and>
   last (snd (snd (updateBackstopConfig (filesWith demoDoc) [demoPair] None))) =
     StdOut (js ''Updated backstop.json with 1 additional scenarios'')"
proof -
  let ?cfg = "Plain (JObj [(js ''id'', JStr (js ''demo'')),
                            (js ''scenarios'',
                             JArr [JObj [(js ''label'', JStr (js ''Home''))], scenarioOf 0 demoPair])])"
  obtain c f out where r: "updateBackstopConfig (filesWith demoDoc) [demoPair] None = (c, f, out)"
    by (cases "updateBackstopConfig (filesWith demoDoc) [demoPair] None") auto
  have "fst (updateBackstopConfig (filesWith demoDoc) [demoPair] None) = Returned ?cfg"
    by (simp add: apply_simps)
  with r have r': "updateBackstopConfig (filesWith demoDoc) [demoPair] None = (Returned ?cfg, f, out)"
    by simp
  have d: "js ''Updated '' @ pathOf None @ js '' with '' @ decimal (length [demoPair]) @
           js '' additional scenarios'' = js ''Updated backstop.json with 1 additional scenarios''"
    by (simp add: decimal_digit js_def pathOf_def)
  from apply_returns_document [OF r'] show ?thesis
    unfolding d r' by (simp add: pathOf_def)
qed

text \<open>
  The claim as it was stated fails: with one pair the call returns the document with
  its two scenarios, not the number 1.
\<close>

theorem apply_returns_count_counterexample:
  "fst (updateBackstopConfig (filesWith demoDoc) [demoPair] None) =
     Returned (Plain (JObj [(js ''id'', JStr (js ''demo'')),
                            (js ''scenarios'',
                             JArr [JObj [(js ''label'', JStr (js ''Home''))], scenarioOf 0 demoPair])])) \<and>
   fst (updateBackstopConfig (filesWith demoDoc) [demoPair] None) \<noteq>
     Returned (Plain (JNum (Finite 1)))"
  by (simp add: apply_simps)

text \<open>
  Claim C10. When updateBackstopConfig returns after adding records, the scenarios of
  the configuration object end with one record per pair, and every such record has
  the same \<^verbatim>\<open>hideSelectors\<close> (four selectors), \<^verbatim>\<open>removeSelectors\<close> (two selectors) and
  \<^verbatim>\<open>misMatchThreshold\<close> 0.1.
\<close>

theorem appended_defaults:
  assumes "updateBackstopConfig fs urlPairs bp = (Returned cfg, fs', out)"
    and "urlPairs \<noteq> []"
  shows "\<exists>old. getScenarios cfg = Inr (Some (JArr (old @ newScenarios 0 urlPairs))) \<and>
               (\<forall>s\<in>set (newScenarios 0 urlPairs). hasDefaults s)"
proof -
  from assms(1) obtain doc v out0 where
    a: "addScenarios urlPairs 0
          (if \<not> jsonTruthy v then setScenarios (Plain doc) (JArr []) else Plain doc) = (Inr cfg, out0)"
    by (rule updateBackstopConfig_Returned)
  let ?c = "if \<not> jsonTruthy v then setScenarios (Plain doc) (JArr []) else Plain doc"
  from a assms(2) obtain old where g: "getScenarios ?c = Inr (Some (JArr old))"
    by (rule addScenarios_Inr)
  from addScenarios_array [OF g, of urlPairs 0] a
  have "cfg = setScenarios ?c (JArr (old @ newScenarios 0 urlPairs))" by simp
  then have "getScenarios cfg = Inr (Some (JArr (old @ newScenarios 0 urlPairs)))"
    using getScenarios_set [OF g] by simp
  then show ?thesis by (auto simp: hasDefaults_newScenarios)
qed

theorem appended_defaults_witness:
  "(\<exists>old. getScenarios (Plain (JObj [(js ''id'', JStr (js ''demo'')),
                            (js ''scenarios'',
                             JArr [JObj [(js ''label'', JStr (js ''Home''))], scenarioOf 0 demoPair])]))
      = Inr (Some (JArr (old @ [scenarioOf 0 demoPair])))) \<and>
   hasDefaults (scenarioOf 0 demoPair)"
proof -
  let ?cfg = "Plain (JObj [(js ''id'', JStr (js ''demo'')),
                            (js ''scenarios'',
                             JArr [JObj [(js ''label'', JStr (js ''Home''))], scenarioOf 0 demoPair])])"
  obtain c f out where r: "updateBackstopConfig (filesWith demoDoc) [demoPair] None = (c, f, out)"
    by (cases "updateBackstopConfig (filesWith demoDoc) [demoPair] None") auto
  have "fst (updateBackstopConfig (filesWith demoDoc) [demoPair] None) = Returned ?cfg"
    by (simp add: apply_simps)
  with r have r': "updateBackstopConfig (filesWith demoDoc) [demoPair] None = (Returned ?cfg, f, out)"
    by simp
  have n: "[demoPair] \<noteq> []" by simp
  from appended_defaults [OF r' n] show ?thesis by simp
qed

section \<open>Exit codes\<close>

lemma main_exit:
  "exitCode (main pl env args fs) =
     (if \<not> truthy (bodyOf env args) \<or> validPairs pl env args = [] then 0
      else (case fst (updateBackstopConfig fs (validPairs pl env args) (Some (configPath env args))) of
              Returned cfg \<Rightarrow> 0
            | Thrown e \<Rightarrow> 1
            | Exited n \<Rightarrow> n))"
proof -
  have p: "orElse (orElse (BACKSTOP_PATH env) (arg args 1)) (Some (js ''backstop.json''))
           = Some (configPath env args)"
    by (auto simp: configPath_def pathOf_def orElse_def truthy_def split: option.splits)
  show ?thesis
    unfolding main_def p
    by (simp add: bodyOf_def validPairs_def Let_def split: prod.splits completion.splits)
qed

lemma main_files_benign:
  "\<not> truthy (bodyOf env args) \<or> validPairs pl env args = [] \<Longrightarrow> files (main pl env args fs) = fs"
  unfolding main_def
  by (auto simp: bodyOf_def validPairs_def Let_def split: prod.splits completion.splits)

lemma update_missing:
  "entries fs (pathOf bp) = None \<Longrightarrow>
   updateBackstopConfig fs ps bp =
     (Exited 1, fs, [StdErr (js ''Backstop config file not found: '' @ pathOf bp)])"
  by (simp add: updateBackstopConfig_def pathOf_def existsSync_def)

lemma update_malformed:
  "entries fs (pathOf bp) = Some Malformed \<Longrightarrow>
   updateBackstopConfig fs ps bp = (Thrown SyntaxError, fs, [])"
  by (simp add: updateBackstopConfig_def pathOf_def existsSync_def readJson_def)

lemma update_unreadable:
  "entries fs (pathOf bp) = Some Unreadable \<Longrightarrow>
   updateBackstopConfig fs ps bp = (Thrown SystemError, fs, [])"
  by (simp add: updateBackstopConfig_def pathOf_def existsSync_def readJson_def)

lemma update_locked:
  assumes "entries fs (pathOf bp) \<noteq> None" and "locked fs (pathOf bp)"
  shows "\<exists>e out. updateBackstopConfig fs ps bp = (Thrown e, fs, out)"
proof -
  from assms(1) obtain n where n: "entries fs (pathOf bp) = Some n" by auto
  show ?thesis
  proof (cases n)
    case (Json doc)
    with n have e: "entries fs (pathOf bp) = Some (Json doc)" by simp
    show ?thesis
      unfolding updateBackstopConfig_Json [OF e] using assms(2)
      by (auto split: sum.splits prod.splits)
  next
    case Malformed
    with n show ?thesis by (simp add: update_malformed)
  next
    case Unreadable
    with n show ?thesis by (simp add: update_unreadable)
  qed
qed

lemma update_array:
  assumes "entries fs (pathOf bp) = Some (Json doc)"
    and "field ''scenarios'' doc = Some (JArr old)"
    and "\<not> locked fs (pathOf bp)"
  shows "\<exists>cfg fs' out. updateBackstopConfig fs ps bp = (Returned cfg, fs', out)"
proof -
  from assms(2) obtain kvs where doc: "doc = JObj kvs"
    and m: "map_of kvs (js ''scenarios'') = Some (JArr old)"
    by (cases doc) (auto simp: field_def)
  have g: "getScenarios (Plain doc) = Inr (Some (JArr old))" using doc m by simp
  show ?thesis
    unfolding updateBackstopConfig_Json [OF assms(1)] g
    using assms(3) by (simp add: addScenarios_array [OF g])
qed

lemma update_no_write:
  assumes "updateBackstopConfig fs ps bp = (c, fs', out)" and "\<And>cfg. c \<noteq> Returned cfg"
  shows "fs' = fs"
proof (cases "entries fs (pathOf bp)")
  case None
  with assms show ?thesis by (simp add: update_missing)
next
  case (Some n)
  show ?thesis
  proof (cases n)
    case (Json doc)
    with Some have e: "entries fs (pathOf bp) = Some (Json doc)" by simp
    from assms show ?thesis
      unfolding updateBackstopConfig_Json [OF e]
      by (auto split: sum.splits prod.splits if_splits)
  next
    case Malformed
    with Some assms show ?thesis by (simp add: update_malformed)
  next
    case Unreadable
    with Some assms show ?thesis by (simp add: update_unreadable)
  qed
qed

lemma main_files:
  "files (main pl env args fs) =
     (if \<not> truthy (bodyOf env args) \<or> validPairs pl env args = [] then fs
      else fst (snd (updateBackstopConfig fs (validPairs pl env args) (Some (configPath env args)))))"
proof -
  have p: "orElse (orElse (BACKSTOP_PATH env) (arg args 1)) (Some (js ''backstop.json''))
           = Some (configPath env args)"
    by (auto simp: configPath_def pathOf_def orElse_def truthy_def split: option.splits)
  show ?thesis
    unfolding main_def p
    by (simp add: bodyOf_def validPairs_def Let_def split: prod.splits completion.splits)
qed

text \<open>
  Claim C8. The process ends with code 0 when no text is supplied and when no pair
  survives validation. Once there are validated pairs it ends with code 1 when the
  configuration document is missing, is not JSON, cannot be read or cannot be
  written, and whenever updateBackstopConfig throws; it ends with code 0 when
  updateBackstopConfig returns, as it does on a writable document with an array of
  scenarios.
\<close>

theorem exit_codes:
  "(\<not> truthy (bodyOf env args) \<longrightarrow> exitCode (main pl env args fs) = 0) \<and>
   (truthy (bodyOf env args) \<and> validPairs pl env args = [] \<longrightarrow> exitCode (main pl env args fs) = 0) \<and>
   (truthy (bodyOf env args) \<and> validPairs pl env args \<noteq> [] \<longrightarrow>
      (entries fs (configPath env args) = None \<longrightarrow> exitCode (main pl env args fs) = 1) \<and>
      (entries fs (configPath env args) = Some Malformed \<longrightarrow> exitCode (main pl env args fs) = 1) \<and>
      (entries fs (configPath env args) = Some Unreadable \<longrightarrow> exitCode (main pl env args fs) = 1) \<and>
      (entries fs (configPath env args) \<noteq> None \<and> locked fs (configPath env args) \<longrightarrow>
         exitCode (main pl env args fs) = 1) \<and>
      (\<forall>e fs' out.
         updateBackstopConfig fs (validPairs pl env args) (Some (configPath env args)) = (Thrown e, fs', out)
         \<longrightarrow> exitCode (main pl env args fs) = 1) \<and>
      (\<forall>cfg fs' out.
         updateBackstopConfig fs (validPairs pl env args) (Some (configPath env args)) = (Returned cfg, fs', out)
         \<longrightarrow> exitCode (main pl env args fs) = 0) \<and>
      (\<forall>doc old. entries fs (configPath env args) = Some (Json doc) \<and>
                 field ''scenarios'' doc = Some (JArr old) \<and>
                 \<not> locked fs (configPath env args) \<longrightarrow>
         exitCode (main pl env args fs) = 0))"
proof -
  let ?bp = "Some (configPath env args)"
  have p: "pathOf ?bp = configPath env args" by (simp add: pathOf_def)
  have 1: "exitCode (main pl env args fs) = 0" if "\<not> truthy (bodyOf env args)"
    using that by (simp add: main_exit)
  have 2: "exitCode (main pl env args fs) = 0" if "validPairs pl env args = []"
    using that by (simp add: main_exit)
  have 3: "exitCode (main pl env args fs) = 1"
    if "truthy (bodyOf env args)" "validPairs pl env args \<noteq> []"
      "entries fs (configPath env args) = None"
    using that update_missing [of fs ?bp] by (simp add: main_exit p)
  have 4: "exitCode (main pl env args fs) = 1"
    if "truthy (bodyOf env args)" "validPairs pl env args \<noteq> []"
      "entries fs (configPath env args) = Some Malformed"
    using that update_malformed [of fs ?bp] by (simp add: main_exit p)
  have 5: "exitCode (main pl env args fs) = 1"
    if "truthy (bodyOf env args)" "validPairs pl env args \<noteq> []"
      "entries fs (configPath env args) = Some Unreadable"
    using that update_unreadable [of fs ?bp] by (simp add: main_exit p)
  have 8: "exitCode (main pl env args fs) = 1"
    if "truthy (bodyOf env args)" "validPairs pl env args \<noteq> []"
      "updateBackstopConfig fs (validPairs pl env args) ?bp = (Thrown e, fs', out)" for e fs' out
    using that by (simp add: main_exit)
  have 9: "exitCode (main pl env args fs) = 0"
    if "truthy (bodyOf env args)" "validPairs pl env args \<noteq> []"
      "updateBackstopConfig fs (validPairs pl env args) ?bp = (Returned cfg, fs', out)" for cfg fs' out
    using that by (simp add: main_exit)
  have 6: "exitCode (main pl env args fs) = 1"
    if "truthy (bodyOf env args)" "validPairs pl env args \<noteq> []"
      "entries fs (configPath env args) \<noteq> None" "locked fs (configPath env args)"
  proof -
    from update_locked [of fs ?bp "validPairs pl env args"] that(3,4) obtain e out where
      "updateBackstopConfig fs (validPairs pl env args) ?bp = (Thrown e, fs, out)"
      unfolding p by blast
    then show ?thesis by (rule 8 [OF that(1,2)])
  qed
  have 7: "exitCode (main pl env args fs) = 0"
    if "truthy (bodyOf env args)" "validPairs pl env args \<noteq> []"
      "entries fs (configPath env args) = Some (Json doc)"
      "field ''scenarios'' doc = Some (JArr old)" "\<not> locked fs (configPath env args)" for doc old
  proof -
    from update_array [of fs ?bp doc old "validPairs pl env args"] that(3,4,5) obtain cfg fs' out where
      "updateBackstopConfig fs (validPairs pl env args) ?bp = (Returned cfg, fs', out)"
      unfolding p by blast
    then show ?thesis by (rule 9 [OF that(1,2)])
  qed
  show ?thesis using 1 2 3 4 5 6 7 8 9 by blast
qed

lemma demo_extract:
  "potentialPairs (extractPairs demoBody) = [demoPair]"
  "warnings (extractPairs demoBody) = []"
  by (simp_all add: demoBody_def demoPair_def warnings_def scan_simps)

lemma demo_validPairs:
  "validPairs okPlatform \<lparr>PR_BODY = Some demoBody, BACKSTOP_PATH = None\<rparr> [] = [demoPair]"
proof -
  have "demoBody \<noteq> []" by (simp add: demoBody_def)
  moreover have "fst (validateUrl okPlatform t u)" for t u
    by (simp add: validateUrl_def validateUrlTry_def okPlatform_def)
  ultimately show ?thesis
    by (simp add: validPairs_def bodyOf_def orElse_def truthy_def parsePRBody_def demo_extract
        validatePairs_Cons case_prod_beta del: validatePairs.simps(2))
qed

theorem exit_codes_witness:
  "exitCode (main okPlatform \<lparr>PR_BODY = None, BACKSTOP_PATH = None\<rparr> [] noFiles) = 0 \<and>
   exitCode (main okPlatform \<lparr>PR_BODY = Some demoBody, BACKSTOP_PATH = None\<rparr> [] noFiles) = 1 \<and>
   exitCode (main okPlatform \<lparr>PR_BODY = Some demoBody, BACKSTOP_PATH = None\<rparr> [] (filesWith demoDoc)) = 0"
proof -
  let ?env = "\<lparr>PR_BODY = Some demoBody, BACKSTOP_PATH = None\<rparr>"
  let ?none = "\<lparr>PR_BODY = None, BACKSTOP_PATH = None\<rparr>"
  have n: "\<not> truthy (bodyOf ?none [])"
    by (simp add: bodyOf_def orElse_def truthy_def arg_def)
  have t: "truthy (bodyOf ?env [])"
    by (simp add: bodyOf_def orElse_def truthy_def demoBody_def)
  have v: "validPairs okPlatform ?env [] \<noteq> []" by (simp add: demo_validPairs)
  have p: "configPath ?env [] = js ''backstop.json''"
    by (simp add: configPath_def pathOf_def orElse_def truthy_def arg_def js_def)
  have m: "entries noFiles (configPath ?env []) = None" by (simp add: noFiles_def)
  have e: "entries (filesWith demoDoc) (configPath ?env []) = Some (Json demoDoc)"
    by (simp add: p filesWith_def)
  have s: "field ''scenarios'' demoDoc = Some (JArr [JObj [(js ''label'', JStr (js ''Home''))]])"
    by (simp add: field_def demoDoc_def js_def)
  have w: "\<not> locked (filesWith demoDoc) (configPath ?env [])" by (simp add: filesWith_def)
  have 1: "exitCode (main okPlatform ?none [] noFiles) = 0"
    using exit_codes [of ?none "[]" okPlatform noFiles] n by simp
  have 2: "exitCode (main okPlatform ?env [] noFiles) = 1"
    using exit_codes [of ?env "[]" okPlatform noFiles] t v m by simp
  have 3: "exitCode (main okPlatform ?env [] (filesWith demoDoc)) = 0"
    using exit_codes [of ?env "[]" okPlatform "filesWith demoDoc"] t v e s w by simp
  show ?thesis using 1 2 3 by simp
qed

text \<open>
  The example of the specification: the text \<^verbatim>\<open>- Before: https://a.example/x\<close>,
  \<^verbatim>\<open>- After: https://b.example/y\<close> with both URLs answering 200 adds one scenario with
  the after URL as \<^verbatim>\<open>url\<close>, the before URL as \<^verbatim>\<open>referenceUrl\<close> and the label
  \<^verbatim>\<open>Additional test page (1)\<close>.
\<close>

lemma end_to_end_example:
  "exitCode (main okPlatform \<lparr>PR_BODY = Some demoBody, BACKSTOP_PATH = None\<rparr> [] (filesWith bareDoc)) = 0 \<and>
   entries (files (main okPlatform \<lparr>PR_BODY = Some demoBody, BACKSTOP_PATH = None\<rparr> [] (filesWith bareDoc)))
     (js ''backstop.json'') =
     Some (Json (JObj [(js ''id'', JStr (js ''demo'')),
                       (js ''scenarios'',
                        JArr [JObj [(js ''label'', JStr (js ''Additional test page (1)'')),
                                    (js ''url'', JStr (js ''https://b.example/y'')),
                                    (js ''referenceUrl'', JStr (js ''https://a.example/x'')),
                                    (js ''hideSelectors'', hideSelectors),
                                    (js ''removeSelectors'', removeSelectors),
                                    (js ''misMatchThreshold'', JNum (Finite 0.1))]])]))"
proof -
  let ?env = "\<lparr>PR_BODY = Some demoBody, BACKSTOP_PATH = None\<rparr>"
  have t: "truthy (bodyOf ?env [])"
    by (simp add: bodyOf_def orElse_def truthy_def demoBody_def)
  have v: "validPairs okPlatform ?env [] = [demoPair]" by (rule demo_validPairs)
  have p: "configPath ?env [] = js ''backstop.json''"
    by (simp add: configPath_def pathOf_def orElse_def truthy_def arg_def js_def)
  have s: "scenarioOf 0 demoPair =
      JObj [(js ''label'', JStr (js ''Additional test page (1)'')),
            (js ''url'', JStr (js ''https://b.example/y'')),
            (js ''referenceUrl'', JStr (js ''https://a.example/x'')),
            (js ''hideSelectors'', hideSelectors),
            (js ''removeSelectors'', removeSelectors),
            (js ''misMatchThreshold'', JNum (Finite 0.1))]"
    by (simp add: scenarioOf_def labelOf_def demoPair_def decimal_digit js_def)
  have u: "updateBackstopConfig (filesWith bareDoc) [demoPair] (Some (js ''backstop.json'')) =
      (Returned (Plain (JObj [(js ''id'', JStr (js ''demo'')), (js ''scenarios'', JArr [scenarioOf 0 demoPair])])),
       (filesWith bareDoc)\<lparr>entries := (entries (filesWith bareDoc))
          (js ''backstop.json'' \<mapsto>
             Json (JObj [(js ''id'', JStr (js ''demo'')), (js ''scenarios'', JArr [scenarioOf 0 demoPair])]))\<rparr>,
       [StdOut (js ''Added scenario: '' @ labelOf 0),
        StdOut (js ''Updated '' @ js ''backstop.json'' @ js '' with '' @ decimal 1 @ js '' additional scenarios'')])"
    by (simp add: apply_simps)
  show ?thesis
    unfolding main_exit main_files v p u using t by (simp add: s)
qed

end
